theory Spec2Isabelle
  imports Complex_Main
begin

section \<open>Character-level language model: codec, windows, one-hot, network calls, generation\<close>

text \<open>
  The development follows the cells of \<^verbatim>\<open>LanguageModel.ipynb\<close>. A Python string is a
  sequence of Unicode code points, so a character is a natural number here and a string
  is a list of them; \<open>str_of\<close> reads an ASCII literal as such a list. Exceptions of the
  source are values of \<open>py_error\<close>, returned on the left of a sum.
\<close>

subsection \<open>Errors and sequencing\<close>

datatype py_error = AttributeError | IndexError | KeyError | RuntimeError

definition ebind :: "py_error + 'a \<Rightarrow> ('a \<Rightarrow> py_error + 'b) \<Rightarrow> py_error + 'b" where
  "ebind m f = (case m of Inl e \<Rightarrow> Inl e | Inr x \<Rightarrow> f x)"

text \<open>Running a list of computations in order; the first exception aborts the rest.\<close>

fun sequence_err :: "(py_error + 'a) list \<Rightarrow> py_error + 'a list" where
  "sequence_err [] = Inr []"
| "sequence_err (m # ms) =
     (case m of Inl e \<Rightarrow> Inl e
      | Inr x \<Rightarrow> (case sequence_err ms of Inl e \<Rightarrow> Inl e | Inr xs \<Rightarrow> Inr (x # xs)))"

subsection \<open>Strings, dictionaries, slices\<close>

type_synonym codepoint = nat

definition str_of :: "string \<Rightarrow> codepoint list" where
  "str_of s = map of_char s"

text \<open>\<^verbatim>\<open>enumerate(xs)\<close>: the pairs (position, element), positions being Python ints.\<close>

definition enumerate_py :: "'a list \<Rightarrow> (int \<times> 'a) list" where
  "enumerate_py xs = zip (map int [0..<length xs]) xs"

text \<open>\<^verbatim>\<open>dict(pairs)\<close>: the pairs are stored in order, a later key overwriting an earlier one.\<close>

definition py_dict :: "('k \<times> 'v) list \<Rightarrow> ('k \<rightharpoonup> 'v)" where
  "py_dict ps = foldl (\<lambda>m (k, v). m(k \<mapsto> v)) Map.empty ps"

text \<open>\<^verbatim>\<open>d.get(k, default)\<close> never raises; \<^verbatim>\<open>d[k]\<close> raises KeyError on a missing key.\<close>

definition dict_get :: "('k \<rightharpoonup> 'v) \<Rightarrow> 'k \<Rightarrow> 'v \<Rightarrow> 'v" where
  "dict_get d k dflt = (case d k of None \<Rightarrow> dflt | Some v \<Rightarrow> v)"

definition dict_index :: "('k \<rightharpoonup> 'v) \<Rightarrow> 'k \<Rightarrow> py_error + 'v" where
  "dict_index d k = case_option (Inl KeyError) Inr (d k)"

text \<open>
  A slice bound of \<^verbatim>\<open>xs[a:b]\<close> (step 1) on a sequence of length \<open>n\<close>: a negative bound
  counts from the end, and the result is clamped into \<open>[0, n]\<close>; an omitted bound is
  \<open>None\<close>. Slicing never raises.
\<close>

definition slice_bound :: "int \<Rightarrow> int \<Rightarrow> int" where
  "slice_bound n b = (if b < 0 then max (b + n) 0 else min b n)"

definition py_slice :: "'a list \<Rightarrow> int option \<Rightarrow> int option \<Rightarrow> 'a list" where
  "py_slice xs a b =
     (let n = int (length xs);
          start = (case a of None \<Rightarrow> 0 | Some i \<Rightarrow> slice_bound n i);
          stop = (case b of None \<Rightarrow> n | Some j \<Rightarrow> slice_bound n j)
      in take (nat (stop - start)) (drop (nat start) xs))"

text \<open>\<^verbatim>\<open>xs[i]\<close> with an integer: negative indices count from the end, out of range raises.\<close>

definition py_index :: "'a list \<Rightarrow> int \<Rightarrow> py_error + 'a" where
  "py_index xs i =
     (if 0 \<le> i \<and> i < int (length xs) then Inr (xs ! nat i)
      else if - int (length xs) \<le> i \<and> i < 0 then Inr (xs ! nat (i + int (length xs)))
      else Inl IndexError)"

subsection \<open>Vocabulary and tokenizer\<close>

definition chars :: "codepoint list" where
  "chars = str_of ''abcdefghijklmnopqrstuvwxyz. ''"

definition input_size :: int where
  "input_size = int (length chars)"

definition char_to_int :: "codepoint \<rightharpoonup> int" where
  "char_to_int = py_dict (map (\<lambda>(i, c). (c, i)) (enumerate_py chars))"

definition int_to_char :: "int \<rightharpoonup> codepoint" where
  "int_to_char = py_dict (map (\<lambda>(i, c). (i, c)) (enumerate_py chars))"

text \<open>
  \<^verbatim>\<open>tokenize(data)\<close>. The built-in \<^verbatim>\<open>str.lower\<close> is not code of the notebook: it is the
  parameter \<open>lower\<close>, a function on whole strings (Unicode lowercasing may change the
  length of a string). Every character is looked up with default \<open>-1\<close>, and the entries
  equal to \<open>-1\<close> are then removed by the mask \<^verbatim>\<open>idx != -1\<close>. The result is a
  one-dimensional tensor of Python ints, a list here.
\<close>

definition tokenize :: "(codepoint list \<Rightarrow> codepoint list) \<Rightarrow> codepoint list \<Rightarrow> int list" where
  "tokenize lower data =
     (let data' = lower data;
          idx = map (\<lambda>char. dict_get char_to_int char (- 1)) data'
      in filter (\<lambda>i. i \<noteq> - 1) idx)"

text \<open>
  \<^verbatim>\<open>str.lower\<close> on ASCII text: the letters A to Z move to a to z, every other ASCII
  character stays. Used to run the tokenizer on concrete ASCII inputs.
\<close>

definition ascii_lower :: "codepoint list \<Rightarrow> codepoint list" where
  "ascii_lower s = map (\<lambda>c. if 65 \<le> c \<and> c \<le> 90 then c + 32 else c) s"

text \<open>Decoding one token is the lookup \<^verbatim>\<open>int_to_char[token]\<close> of the generation loop.\<close>

definition decode :: "int \<Rightarrow> py_error + codepoint" where
  "decode token = dict_index int_to_char token"

definition decode_all :: "int list \<Rightarrow> py_error + codepoint list" where
  "decode_all tokens = sequence_err (map decode tokens)"

subsection \<open>The windowed dataset\<close>

text \<open>
  \<^verbatim>\<open>class Alice(Dataset)\<close>: the fields \<^verbatim>\<open>self.idx\<close> (the token tensor) and \<^verbatim>\<open>self.size\<close>
  (the window size). The constructor reads the corpus file; the text read is the
  argument \<open>data\<close>.
\<close>

record Alice =
  self_idx :: "int list"
  self_size :: int

definition Alice_init ::
  "(codepoint list \<Rightarrow> codepoint list) \<Rightarrow> codepoint list \<Rightarrow> int \<Rightarrow> Alice" where
  "Alice_init lower data sz = \<lparr>self_idx = tokenize lower data, self_size = sz\<rparr>"

definition Alice_getitem :: "Alice \<Rightarrow> int \<Rightarrow> int list" where
  "Alice_getitem self index =
     py_slice (self_idx self) (Some index) (Some (index + self_size self))"

definition Alice_len :: "Alice \<Rightarrow> int" where
  "Alice_len self = int (length (self_idx self)) - self_size self"

subsection \<open>Tensors\<close>

text \<open>
  A tensor of any rank is a nested sequence: a scalar, or a dimension holding the
  sub-tensors along it. \<open>has_shape\<close> states the sizes of the dimensions, \<open>tensor_at\<close>
  reads the entry at a multi-index, and \<open>vec\<close> and \<open>mat\<close> build tensors of rank one and
  two from lists.
\<close>

datatype 'a tensor = Scalar 'a | Dim "'a tensor list"

fun has_shape :: "nat list \<Rightarrow> 'a tensor \<Rightarrow> bool" where
  "has_shape [] (Scalar a) = True"
| "has_shape (n # ns) (Dim ts) = (length ts = n \<and> list_all (has_shape ns) ts)"
| "has_shape _ _ = False"

fun tensor_at :: "'a tensor \<Rightarrow> nat list \<Rightarrow> 'a option" where
  "tensor_at (Scalar a) [] = Some a"
| "tensor_at (Dim ts) (i # p) = (if i < length ts then tensor_at (ts ! i) p else None)"
| "tensor_at _ _ = None"

definition vec :: "'a list \<Rightarrow> 'a tensor" where
  "vec xs = Dim (map Scalar xs)"

definition mat :: "'a list list \<Rightarrow> 'a tensor" where
  "mat rows = Dim (map vec rows)"

text \<open>\<^verbatim>\<open>torch.unsqueeze(t, 0)\<close> adds a leading dimension of size one.\<close>

definition unsqueeze0 :: "'a tensor \<Rightarrow> 'a tensor" where
  "unsqueeze0 t = Dim [t]"

text \<open>
  \<^verbatim>\<open>t[..., a:b, ...]\<close> with the slice at dimension \<open>d\<close> and full slices before it.
  Indexing a scalar with a slice raises IndexError.
\<close>

fun slice_at :: "nat \<Rightarrow> int option \<Rightarrow> int option \<Rightarrow> 'a tensor \<Rightarrow> py_error + 'a tensor" where
  "slice_at d a b (Scalar x) = Inl IndexError"
| "slice_at 0 a b (Dim ts) = Inr (Dim (py_slice ts a b))"
| "slice_at (Suc d) a b (Dim ts) =
     (case sequence_err (map (slice_at d a b) ts) of
        Inl e \<Rightarrow> Inl e | Inr rs \<Rightarrow> Inr (Dim rs))"

subsection \<open>One-hot encoding\<close>

text \<open>
  \<^verbatim>\<open>torch.eye(n, dtype=int)\<close> is the \<open>n\<close> by \<open>n\<close> identity matrix of integers; a negative
  \<open>n\<close> raises. \<^verbatim>\<open>m[idx]\<close> with an integer tensor replaces every entry \<open>k\<close> of \<open>idx\<close> by row
  \<open>k\<close> of \<open>m\<close>, a negative \<open>k\<close> counting from the end and \<open>k\<close> out of range raising
  IndexError. \<^verbatim>\<open>.float()\<close> converts the integer entries, here to reals.
\<close>

definition eye :: "int \<Rightarrow> py_error + int list list" where
  "eye n =
     (if n < 0 then Inl RuntimeError
      else Inr (map (\<lambda>i. map (\<lambda>j. if i = j then 1 else 0) [0..<nat n]) [0..<nat n]))"

fun index_rows :: "'a list list \<Rightarrow> int tensor \<Rightarrow> py_error + 'a tensor" where
  "index_rows m (Scalar k) =
     (case py_index m k of Inl e \<Rightarrow> Inl e | Inr row \<Rightarrow> Inr (vec row))"
| "index_rows m (Dim ts) =
     (case sequence_err (map (index_rows m) ts) of
        Inl e \<Rightarrow> Inl e | Inr rs \<Rightarrow> Inr (Dim rs))"

definition onehot :: "int tensor \<Rightarrow> int \<Rightarrow> py_error + real tensor" where
  "onehot idx input_size' =
     ebind (eye input_size') (\<lambda>m.
     ebind (index_rows m idx) (\<lambda>inputs.
     Inr (map_tensor real_of_int inputs)))"

subsection \<open>Teacher forcing in the training loop\<close>

text \<open>
  The first lines of the loop body over a batch \<open>idx\<close> of windows:
  \<^verbatim>\<open>inputs = onehot(idx, input_size); inputs = inputs[:,:-1,:]; targets = idx[:,1:]\<close>.
  The optimisation that follows works on floating-point numbers and is not part of this
  development.
\<close>

definition train_batch_io :: "int tensor \<Rightarrow> py_error + (real tensor \<times> int tensor)" where
  "train_batch_io idx =
     ebind (onehot idx input_size) (\<lambda>inputs.
     ebind (slice_at 0 None None inputs) (\<lambda>inputs.
     ebind (slice_at 1 None (Some (- 1)) inputs) (\<lambda>inputs.
     ebind (slice_at 2 None None inputs) (\<lambda>inputs.
     ebind (slice_at 0 None None idx) (\<lambda>targets.
     ebind (slice_at 1 (Some 1) None targets) (\<lambda>targets.
     Inr (inputs, targets)))))))"

subsection \<open>The network object\<close>

text \<open>
  Both call sites pass the network a tensor of rank three (batch, time, vocabulary),
  and the logits it returns have rank three as well; such a tensor is a triply nested
  list. The recurrent state is the pair (hidden, cell), each of shape
  (layers, batch, hidden size).

  The arithmetic of \<^verbatim>\<open>nn.LSTM\<close>, \<^verbatim>\<open>nn.Linear\<close> and \<^verbatim>\<open>nn.Dropout\<close> belongs to the torch
  library and works on floating-point numbers; it enters as three functions. \<open>lstm_fn\<close>
  runs the recurrent layer from a given initial state and may raise (torch rejects
  inputs and states of the wrong shape); \<open>linear_fn\<close> is the projection; \<open>dropout_fn\<close> is
  dropout in training mode, which draws from the random generator, whose state \<open>'r\<close> it
  takes and returns. The learned parameters are a value of type \<open>'w\<close>. Activations and
  logits are real numbers: rounding, infinities and NaN are outside this development.
\<close>

type_synonym tensor3 = "real list list list"

type_synonym lstm_state = "tensor3 \<times> tensor3"

record ('w, 'r) torch_ops =
  lstm_fn :: "'w \<Rightarrow> tensor3 \<Rightarrow> lstm_state \<Rightarrow> py_error + (tensor3 \<times> lstm_state)"
  linear_fn :: "'w \<Rightarrow> tensor3 \<Rightarrow> tensor3"
  dropout_fn :: "'r \<Rightarrow> tensor3 \<Rightarrow> tensor3 \<times> 'r"

text \<open>
  \<^verbatim>\<open>torch.zeros\<close> of shape (1, batch, 128): the state an \<^verbatim>\<open>nn.LSTM\<close> with one layer and
  hidden size 128 starts from when it is called without a state.
\<close>

definition zero_state :: "tensor3 \<Rightarrow> lstm_state" where
  "zero_state input =
     (let z = [replicate (length input) (replicate 128 0)] in (z, z))"

definition nn_LSTM ::
  "('w, 'r) torch_ops \<Rightarrow> 'w \<Rightarrow> tensor3 \<Rightarrow> lstm_state option
     \<Rightarrow> py_error + (tensor3 \<times> lstm_state)" where
  "nn_LSTM ops w input hx =
     lstm_fn ops w input (case hx of None \<Rightarrow> zero_state input | Some h \<Rightarrow> h)"

text \<open>\<^verbatim>\<open>nn.Dropout\<close> is the identity in evaluation mode and touches no random state there.\<close>

definition nn_Dropout ::
  "('w, 'r) torch_ops \<Rightarrow> bool \<Rightarrow> 'r \<Rightarrow> tensor3 \<Rightarrow> tensor3 \<times> 'r" where
  "nn_Dropout ops train rng x = (if train then dropout_fn ops rng x else (x, rng))"

text \<open>
  \<^verbatim>\<open>class MyRNN\<close>: the parameters of its layers, the training flag of \<^verbatim>\<open>nn.Module\<close>, and
  the attribute \<^verbatim>\<open>self.hiddens\<close>, which \<^verbatim>\<open>__init__\<close> does not create (\<open>None\<close> is the
  missing attribute, and reading it raises AttributeError).
\<close>

record 'w MyRNN =
  weights :: 'w
  training :: bool
  hiddens :: "lstm_state option"

definition MyRNN_init :: "'w \<Rightarrow> 'w MyRNN" where
  "MyRNN_init w = \<lparr>weights = w, training = True, hiddens = None\<rparr>"

definition get_hiddens :: "'w MyRNN \<Rightarrow> py_error + lstm_state" where
  "get_hiddens self = (case hiddens self of None \<Rightarrow> Inl AttributeError | Some h \<Rightarrow> Inr h)"

text \<open>
  \<^verbatim>\<open>MyRNN.forward(input, zero_hidden)\<close> returns the logits together with the updated
  object and random state. An exception leaves the object as it was: the only step
  after the assignment to \<^verbatim>\<open>self.hiddens\<close> are dropout and the projection.
\<close>

definition forward ::
  "('w, 'r) torch_ops \<Rightarrow> 'w MyRNN \<Rightarrow> 'r \<Rightarrow> tensor3 \<Rightarrow> bool
     \<Rightarrow> py_error + (tensor3 \<times> 'w MyRNN \<times> 'r)" where
  "forward ops self rng input zero_hidden =
     ebind (if zero_hidden then nn_LSTM ops (weights self) input None
            else ebind (get_hiddens self) (\<lambda>h. nn_LSTM ops (weights self) input (Some h)))
       (\<lambda>(output, hiddens').
          let self' = self\<lparr>hiddens := Some hiddens'\<rparr>;
              (output, rng') = nn_Dropout ops (training self') rng output;
              output = linear_fn ops (weights self') output
          in Inr (output, self', rng'))"

subsection \<open>Generation\<close>

text \<open>
  \<^verbatim>\<open>torch.max(outputs, 2)\<close> returns, for every batch element and time step, the largest
  logit and its position, the first one among equal logits; the loop keeps the
  positions. A vocabulary dimension of size zero raises.
\<close>

fun argmax_acc :: "int \<Rightarrow> real \<Rightarrow> int \<Rightarrow> real list \<Rightarrow> int" where
  "argmax_acc best v i [] = best"
| "argmax_acc best v i (x # xs) =
     (if v < x then argmax_acc i x (i + 1) xs else argmax_acc best v (i + 1) xs)"

definition argmax_row :: "real list \<Rightarrow> py_error + int" where
  "argmax_row xs = (case xs of [] \<Rightarrow> Inl IndexError | x # xs' \<Rightarrow> Inr (argmax_acc 0 x 1 xs'))"

definition max_dim2 :: "tensor3 \<Rightarrow> py_error + int list list" where
  "max_dim2 outputs =
     sequence_err (map (\<lambda>steps. sequence_err (map argmax_row steps)) outputs)"

text \<open>
  Reading a tensor as one of rank three. The sampling loop always builds such a tensor (a
  one-dimensional token tensor, one-hot encoded and given a batch dimension), so the
  error branches here are never taken by it.
\<close>

definition scalar_of :: "'a tensor \<Rightarrow> py_error + 'a" where
  "scalar_of t = (case t of Scalar a \<Rightarrow> Inr a | Dim _ \<Rightarrow> Inl RuntimeError)"

definition dim_of :: "'a tensor \<Rightarrow> py_error + 'a tensor list" where
  "dim_of t = (case t of Scalar _ \<Rightarrow> Inl RuntimeError | Dim ts \<Rightarrow> Inr ts)"

definition tensor3_of :: "real tensor \<Rightarrow> py_error + tensor3" where
  "tensor3_of t =
     ebind (dim_of t) (\<lambda>bs. sequence_err (map (\<lambda>b.
       ebind (dim_of b) (\<lambda>steps. sequence_err (map (\<lambda>s.
         ebind (dim_of s) (\<lambda>xs. sequence_err (map scalar_of xs))) steps))) bs))"

text \<open>
  The variables of the sampling loop: the current input tokens \<^verbatim>\<open>idx\<close>, the text so far,
  the flag \<^verbatim>\<open>zero_hidden\<close>, the network object and the state of the random generator.
\<close>

record ('w, 'r) gen_state =
  g_idx :: "int list"
  g_output :: "codepoint list"
  g_zero_hidden :: bool
  g_net :: "'w MyRNN"
  g_rng :: 'r

text \<open>
  \<^verbatim>\<open>predicted[0,-1].item()\<close>: the position chosen at the last time step of the first
  batch element.
\<close>

definition predicted_token :: "tensor3 \<Rightarrow> py_error + int" where
  "predicted_token outputs =
     ebind (max_dim2 outputs) (\<lambda>predicted.
     ebind (py_index predicted 0) (\<lambda>row. py_index row (- 1)))"

text \<open>One pass through the body of \<^verbatim>\<open>for i in range(gen_length)\<close>.\<close>

definition gen_step ::
  "('w, 'r) torch_ops \<Rightarrow> ('w, 'r) gen_state \<Rightarrow> py_error + ('w, 'r) gen_state" where
  "gen_step ops s =
     ebind (onehot (vec (g_idx s)) input_size) (\<lambda>inputs.
     ebind (tensor3_of (unsqueeze0 inputs)) (\<lambda>inputs.
     ebind (forward ops (g_net s) (g_rng s) inputs (g_zero_hidden s)) (\<lambda>(outputs, net', rng').
     ebind (predicted_token outputs) (\<lambda>token.
     ebind (dict_index int_to_char token) (\<lambda>c.
     Inr \<lparr>g_idx = [token], g_output = g_output s @ [c], g_zero_hidden = False,
          g_net = net', g_rng = rng'\<rparr>)))))"

fun gen_loop ::
  "('w, 'r) torch_ops \<Rightarrow> nat \<Rightarrow> ('w, 'r) gen_state \<Rightarrow> py_error + ('w, 'r) gen_state" where
  "gen_loop ops 0 s = Inr s"
| "gen_loop ops (Suc n) s = ebind (gen_step ops s) (gen_loop ops n)"

text \<open>
  The generation cell: the parameters are restored from the checkpoint
  (\<^verbatim>\<open>load_state_dict\<close>), the primer is tokenized, the network is put in evaluation mode,
  and the loop runs \<^verbatim>\<open>range(gen_length)\<close>, which is empty for a negative length. The
  result is the text the cell prints.
\<close>

definition gen_init ::
  "(codepoint list \<Rightarrow> codepoint list) \<Rightarrow> 'w \<Rightarrow> 'w MyRNN \<Rightarrow> 'r \<Rightarrow> codepoint list
     \<Rightarrow> ('w, 'r) gen_state" where
  "gen_init lower state_dict net rng pretext =
     (let net = net\<lparr>weights := state_dict\<rparr>;
          idx = tokenize lower pretext;
          output = pretext;
          zero_hidden = True;
          net = net\<lparr>training := False\<rparr>
      in \<lparr>g_idx = idx, g_output = output, g_zero_hidden = zero_hidden,
          g_net = net, g_rng = rng\<rparr>)"

definition generate ::
  "(codepoint list \<Rightarrow> codepoint list) \<Rightarrow> ('w, 'r) torch_ops \<Rightarrow> 'w \<Rightarrow> 'w MyRNN \<Rightarrow> 'r
     \<Rightarrow> codepoint list \<Rightarrow> int \<Rightarrow> py_error + codepoint list" where
  "generate lower ops state_dict net rng pretext gen_length =
     ebind (gen_loop ops (nat gen_length) (gen_init lower state_dict net rng pretext))
       (\<lambda>s. Inr (g_output s))"

text \<open>
  A network for running the calls on concrete inputs. Its recurrent layer hands the
  input on as output and adds the number of time steps it has read to every entry of the
  cell state; its projection gives every time step the same logits, largest at position
  \<open>k\<close>; its dropout in training mode scales by the random state and advances it.
\<close>

definition const_ops :: "nat \<Rightarrow> (unit, nat) torch_ops" where
  "const_ops k =
     \<lparr>lstm_fn = (\<lambda>w x (h, c).
        Inr (x, (h, map (map (map (\<lambda>v. v + real (length (concat x))))) c))),
      linear_fn = (\<lambda>w y. map (map (\<lambda>step. map (\<lambda>j. if j = k then 1 else 0) [0..<28])) y),
      dropout_fn = (\<lambda>r y. (map (map (map (\<lambda>v. v * real r))) y, Suc r))\<rparr>"

text \<open>
  A network that checks shapes as \<^verbatim>\<open>nn.LSTM(input_size=28, hidden_size=128, num_layers=1,
  batch_first=True)\<close> does: the input is a batch of sequences of at least one time step
  with 28 entries per step, and the hidden and cell state have shape (1, batch, 128);
  anything else raises. Its recurrent layer returns 128 zeros per time step and adds the
  number of time steps to every entry of the cell state; its projection and dropout are
  those of \<open>const_ops\<close>.
\<close>

definition shape3 :: "nat \<Rightarrow> nat \<Rightarrow> nat \<Rightarrow> tensor3 \<Rightarrow> bool" where
  "shape3 a b c t \<longleftrightarrow>
     length t = a \<and> list_all (\<lambda>m. length m = b \<and> list_all (\<lambda>r. length r = c) m) t"

definition strict_ops :: "nat \<Rightarrow> (unit, nat) torch_ops" where
  "strict_ops k =
     \<lparr>lstm_fn = (\<lambda>w x (h, c).
        if x \<noteq> [] \<and> hd x \<noteq> [] \<and> shape3 (length x) (length (hd x)) 28 x
           \<and> shape3 1 (length x) 128 h \<and> shape3 1 (length x) 128 c
        then Inr (map (map (\<lambda>step. replicate 128 0)) x,
                  (h, map (map (map (\<lambda>v. v + real (length (hd x))))) c))
        else Inl RuntimeError),
      linear_fn = (\<lambda>w y. map (map (\<lambda>step. map (\<lambda>j. if j = k then 1 else 0) [0..<28])) y),
      dropout_fn = (\<lambda>r y. (map (map (map (\<lambda>v. v * real r))) y, Suc r))\<rparr>"

subsection \<open>Auxiliary notions for the proofs\<close>

text \<open>Replacing every entry of a tensor by a tensor, which adds trailing dimensions.\<close>

fun expand :: "('a \<Rightarrow> 'b tensor) \<Rightarrow> 'a tensor \<Rightarrow> 'b tensor" where
  "expand f (Scalar a) = f a"
| "expand f (Dim ts) = Dim (map (expand f) ts)"

text \<open>The tensor the sampling loop hands to the network for the tokens \<open>idx\<close>.\<close>

definition net_input :: "int list \<Rightarrow> py_error + tensor3" where
  "net_input idx =
     ebind (onehot (vec idx) input_size) (\<lambda>inputs. tensor3_of (unsqueeze0 inputs))"

text \<open>
  What the sampling loop hands to the network: the tokens of a pass are at least one
  token, each a vocabulary index (the tokens of the primer in the first pass, the token
  just generated in every later pass), and the state is the zero state or a state the
  recurrent layer returned in an earlier pass.
\<close>

definition loop_tokens :: "int list \<Rightarrow> bool" where
  "loop_tokens toks \<longleftrightarrow> toks \<noteq> [] \<and> list_all (\<lambda>k. 0 \<le> k \<and> k < input_size) toks"

inductive reachable :: "('w, 'r) torch_ops \<Rightarrow> 'w \<Rightarrow> lstm_state \<Rightarrow> bool"
  for ops :: "('w, 'r) torch_ops" and w :: 'w where
  zero: "loop_tokens toks \<Longrightarrow> net_input toks = Inr x \<Longrightarrow> reachable ops w (zero_state x)"
| step: "reachable ops w h \<Longrightarrow> loop_tokens toks \<Longrightarrow> net_input toks = Inr x
          \<Longrightarrow> lstm_fn ops w x h = Inr (y, h') \<Longrightarrow> reachable ops w h'"

text \<open>
  A network with parameters \<open>w\<close> completes the calls of the loop: on every input the loop
  can build and from every state it can be in, the recurrent layer returns, and the
  projection gives one row of \<open>input_size\<close> logits for every time step of the input. This
  is the shape contract of \<^verbatim>\<open>nn.LSTM(28, 128)\<close> followed by \<^verbatim>\<open>nn.Linear(128, 28)\<close>.
\<close>

definition net_completes :: "('w, 'r) torch_ops \<Rightarrow> 'w \<Rightarrow> bool" where
  "net_completes ops w \<longleftrightarrow>
     (\<forall>toks x h. loop_tokens toks \<and> net_input toks = Inr x \<and> reachable ops w h \<longrightarrow>
        (\<exists>y h'. lstm_fn ops w x h = Inr (y, h')
           \<and> map (map length) (linear_fn ops w y)
               = map (map (\<lambda>step. nat input_size)) x))"

subsection \<open>The vocabulary tables\<close>

lemma foldl_upd_map_of:
  "foldl (\<lambda>m (k, v). m(k \<mapsto> v)) m ps = m ++ map_of (rev ps)"
proof (induction ps arbitrary: m)
  case Nil
  show ?case by simp
next
  case (Cons p ps)
  obtain k v where p: "p = (k, v)" by (cases p)
  have "foldl (\<lambda>m (k, v). m(k \<mapsto> v)) m (p # ps)
      = foldl (\<lambda>m (k, v). m(k \<mapsto> v)) (m(k \<mapsto> v)) ps"
    by (simp only: p foldl_Cons prod.case)
  also have "\<dots> = m(k \<mapsto> v) ++ map_of (rev ps)"
    by (rule Cons.IH)
  also have "\<dots> = m ++ map_of (rev (p # ps))"
    by (auto simp: p fun_eq_iff map_add_def split: option.splits)
  finally show ?case .
qed

lemma py_dict_map_of: "py_dict ps = map_of (rev ps)"
  by (simp add: py_dict_def foldl_upd_map_of)

lemma py_dict_distinct:
  assumes "distinct (map fst ps)"
  shows "py_dict ps k = Some v \<longleftrightarrow> (k, v) \<in> set ps"
proof -
  have "distinct (map fst (rev ps))" using assms by (simp add: rev_map [symmetric])
  then show ?thesis by (simp add: py_dict_map_of)
qed

lemma in_set_enumerate_py:
  "(i, c) \<in> set (enumerate_py xs) \<longleftrightarrow> 0 \<le> i \<and> i < int (length xs) \<and> xs ! nat i = c"
proof
  assume "(i, c) \<in> set (enumerate_py xs)"
  then obtain n where "n < length xs" "i = int n" "c = xs ! n"
    by (auto simp: enumerate_py_def in_set_zip)
  then show "0 \<le> i \<and> i < int (length xs) \<and> xs ! nat i = c" by simp
next
  assume a: "0 \<le> i \<and> i < int (length xs) \<and> xs ! nat i = c"
  then have "nat i < length xs" by linarith
  with a show "(i, c) \<in> set (enumerate_py xs)"
    by (auto simp: enumerate_py_def in_set_zip intro!: exI [of _ "nat i"])
qed

lemma map_fst_enumerate_py: "map fst (enumerate_py xs) = map int [0..<length xs]"
  by (simp add: enumerate_py_def)

lemma map_snd_enumerate_py: "map snd (enumerate_py xs) = xs"
  by (simp add: enumerate_py_def)

lemma distinct_chars: "distinct chars"
  by (simp add: chars_def str_of_def)

lemma length_chars: "length chars = 28"
  by (simp add: chars_def str_of_def)

lemma int_to_char_iff:
  "int_to_char i = Some c \<longleftrightarrow> 0 \<le> i \<and> i < 28 \<and> chars ! nat i = c"
proof -
  have "distinct (map fst (map (\<lambda>(i, c). (i, c)) (enumerate_py chars)))"
    by (simp add: map_fst_enumerate_py distinct_map inj_on_def)
  then show ?thesis
    unfolding int_to_char_def
    by (simp add: py_dict_distinct in_set_enumerate_py length_chars)
qed

lemma char_to_int_iff:
  "char_to_int c = Some i \<longleftrightarrow> 0 \<le> i \<and> i < 28 \<and> chars ! nat i = c"
proof -
  have "map fst (map (\<lambda>(i, c). (c, i)) (enumerate_py chars)) = map snd (enumerate_py chars)"
    by (simp add: case_prod_unfold)
  then have "distinct (map fst (map (\<lambda>(i, c). (c, i)) (enumerate_py chars)))"
    by (simp only: map_snd_enumerate_py distinct_chars)
  moreover have "(c, i) \<in> set (map (\<lambda>(i, c). (c, i)) (enumerate_py chars))
      \<longleftrightarrow> (i, c) \<in> set (enumerate_py chars)"
    by force
  ultimately show ?thesis
    unfolding char_to_int_def
    by (simp only: py_dict_distinct in_set_enumerate_py length_chars) simp
qed

lemma char_to_int_None: "char_to_int c = None \<longleftrightarrow> c \<notin> set chars"
proof -
  have "c \<in> set chars \<longleftrightarrow> (\<exists>i. char_to_int c = Some i)"
  proof
    assume "c \<in> set chars"
    then obtain n where "n < length chars" "chars ! n = c" by (auto simp: in_set_conv_nth)
    then have "char_to_int c = Some (int n)" by (simp add: char_to_int_iff length_chars)
    then show "\<exists>i. char_to_int c = Some i" ..
  next
    assume "\<exists>i. char_to_int c = Some i"
    then obtain i where "0 \<le> i" "i < 28" "chars ! nat i = c" by (auto simp: char_to_int_iff)
    moreover then have "nat i < length chars" by (simp add: length_chars)
    ultimately show "c \<in> set chars" by (auto simp: in_set_conv_nth)
  qed
  then show ?thesis by auto
qed

lemma tokens_decode:
  "decode_all (filter (\<lambda>i. i \<noteq> - 1) (map (\<lambda>char. dict_get char_to_int char (- 1)) s))
     = Inr (filter (\<lambda>c. c \<in> set chars) s)"
proof (induction s)
  case Nil
  show ?case by (simp add: decode_all_def)
next
  case (Cons c s)
  show ?case
  proof (cases "char_to_int c")
    case None
    then have "c \<notin> set chars" by (simp add: char_to_int_None)
    with None Cons.IH show ?thesis by (simp add: dict_get_def)
  next
    case (Some i)
    then have i: "0 \<le> i" "i < 28" "chars ! nat i = c" by (simp_all add: char_to_int_iff)
    then have "int_to_char i = Some c" by (simp add: int_to_char_iff)
    moreover have "c \<in> set chars" using Some char_to_int_None [of c] by simp
    ultimately show ?thesis
      using Some i Cons.IH by (simp add: dict_get_def decode_all_def decode_def dict_index_def)
  qed
qed

lemma tokens_indices:
  "list_all2 (\<lambda>i c. 0 \<le> i \<and> i < 28 \<and> chars ! nat i = c)
     (filter (\<lambda>i. i \<noteq> - 1) (map (\<lambda>char. dict_get char_to_int char (- 1)) s))
     (filter (\<lambda>c. c \<in> set chars) s)"
proof (induction s)
  case Nil
  show ?case by simp
next
  case (Cons c s)
  show ?case
  proof (cases "char_to_int c")
    case None
    then have "c \<notin> set chars" by (simp add: char_to_int_None)
    with None Cons.IH show ?thesis by (simp add: dict_get_def)
  next
    case (Some i)
    then have i: "0 \<le> i" "i < 28" "chars ! nat i = c" by (simp_all add: char_to_int_iff)
    moreover have "c \<in> set chars" using Some char_to_int_None [of c] by simp
    ultimately show ?thesis
      using Some Cons.IH by (simp add: dict_get_def)
  qed
qed

subsection \<open>Claims about the tokenizer\<close>

text \<open>
  Claim C1. For every text \<open>t\<close>, decoding each token of \<open>tokenize t\<close> with the table
  \<open>int_to_char\<close> and joining the characters gives exactly the lowercased text with every
  character outside the vocabulary deleted: the surviving characters are unchanged and
  in their order. The vocabulary has 28 distinct symbols.
\<close>

theorem tokenize_decode_roundtrip:
  "decode_all (tokenize lower t) = Inr (filter (\<lambda>c. c \<in> set chars) (lower t))
   \<and> length chars = 28 \<and> distinct chars"
  by (simp add: tokenize_def tokens_decode length_chars distinct_chars)

theorem tokenize_decode_roundtrip_witness:
  "decode_all (tokenize ascii_lower (str_of ''Hi, Bob. 12'')) = Inr (str_of ''hi bob. '')"
proof -
  have "filter (\<lambda>c. c \<in> set chars) (ascii_lower (str_of ''Hi, Bob. 12'')) = str_of ''hi bob. ''"
    by (simp add: chars_def str_of_def ascii_lower_def)
  with tokenize_decode_roundtrip [of ascii_lower "str_of ''Hi, Bob. 12''"]
  show ?thesis by simp
qed

text \<open>
  Claim C9. Tokenization returns a token sequence for every input string and raises
  nothing (the model of \<^verbatim>\<open>tokenize\<close> has no exception branch: \<^verbatim>\<open>dict.get\<close> with a default
  and the mask cannot raise). The sequence holds, in order, the vocabulary index of each
  surviving character of the lowercased text and nothing else, so a text with no
  vocabulary character gives the empty sequence.
\<close>

theorem tokenize_total:
  "list_all2 (\<lambda>i c. 0 \<le> i \<and> i < input_size \<and> chars ! nat i = c)
     (tokenize lower t) (filter (\<lambda>c. c \<in> set chars) (lower t))
   \<and> (set (lower t) \<inter> set chars = {} \<longrightarrow> tokenize lower t = [])"
proof
  show "list_all2 (\<lambda>i c. 0 \<le> i \<and> i < input_size \<and> chars ! nat i = c)
     (tokenize lower t) (filter (\<lambda>c. c \<in> set chars) (lower t))"
    using tokens_indices [of "lower t"]
    by (simp add: tokenize_def input_size_def length_chars)
  show "set (lower t) \<inter> set chars = {} \<longrightarrow> tokenize lower t = []"
  proof
    assume d: "set (lower t) \<inter> set chars = {}"
    then have "filter (\<lambda>c. c \<in> set chars) (lower t) = []"
      by (auto simp: filter_empty_conv)
    with tokens_indices [of "lower t"] show "tokenize lower t = []"
      by (simp add: tokenize_def)
  qed
qed

theorem tokenize_total_witness:
  "set (ascii_lower (str_of ''42 + 7 = ?'')) \<inter> set chars \<noteq> {}
   \<and> tokenize ascii_lower (str_of ''42 + 7 = ?'') = [27, 27, 27, 27]
   \<and> set (ascii_lower (str_of ''#42!'')) \<inter> set chars = {}
   \<and> tokenize ascii_lower (str_of ''#42!'') = []"
proof -
  have e: "set (ascii_lower (str_of ''#42!'')) \<inter> set chars = {}"
    by (simp add: chars_def str_of_def ascii_lower_def)
  have f: "filter (\<lambda>c. c \<in> set chars) (ascii_lower (str_of ''42 + 7 = ?'')) = [32, 32, 32, 32]"
    by (simp add: chars_def str_of_def ascii_lower_def)
  have n: "set (ascii_lower (str_of ''42 + 7 = ?'')) \<inter> set chars \<noteq> {}"
    by (simp add: chars_def str_of_def ascii_lower_def)
  have c27: "chars ! 27 = 32" by (simp add: chars_def str_of_def)
  have "tokenize ascii_lower (str_of ''42 + 7 = ?'') = [27, 27, 27, 27]"
    by code_simp
  with e n tokenize_total [of ascii_lower "str_of ''#42!''"] show ?thesis by simp
qed

subsection \<open>Claims about the windowed dataset\<close>

lemma py_slice_window:
  assumes "i + W \<le> length xs"
  shows "py_slice xs (Some (int i)) (Some (int i + int W)) = take W (drop i xs)"
proof -
  have "slice_bound (int (length xs)) (int i) = int i"
    using assms by (simp add: slice_bound_def)
  moreover have "slice_bound (int (length xs)) (int i + int W) = int i + int W"
    using assms by (simp add: slice_bound_def)
  ultimately show ?thesis by (simp add: py_slice_def)
qed

text \<open>
  Claim C2. For a token sequence of length \<open>N\<close> and a window size \<open>W\<close> with \<open>N > W\<close>, the
  dataset reports \<open>N - W\<close> items, and for every \<open>i\<close> in \<open>[0, N - W)\<close> item \<open>i\<close> is the
  contiguous slice of \<open>W\<close> tokens starting at \<open>i\<close>. For the token stream
  \<open>[0,1,0,1,2,1,0]\<close> and \<open>W = 4\<close> the items are the three windows \<open>[0,1,0,1]\<close>, \<open>[1,0,1,2]\<close>
  and \<open>[0,1,2,1]\<close>.
\<close>

theorem Alice_windows:
  "(W < length tokens \<longrightarrow>
      Alice_len \<lparr>self_idx = tokens, self_size = int W\<rparr> = int (length tokens) - int W
      \<and> (\<forall>i < length tokens - W.
           Alice_getitem \<lparr>self_idx = tokens, self_size = int W\<rparr> (int i)
             = take W (drop i tokens)
           \<and> length (Alice_getitem \<lparr>self_idx = tokens, self_size = int W\<rparr> (int i)) = W))
   \<and> Alice_len \<lparr>self_idx = [0, 1, 0, 1, 2, 1, 0], self_size = 4\<rparr> = 3
   \<and> map (Alice_getitem \<lparr>self_idx = [0, 1, 0, 1, 2, 1, 0], self_size = 4\<rparr>) [0, 1, 2]
       = [[0, 1, 0, 1], [1, 0, 1, 2], [0, 1, 2, 1]]"
proof (intro conjI impI allI)
  assume "W < length tokens"
  show "Alice_len \<lparr>self_idx = tokens, self_size = int W\<rparr> = int (length tokens) - int W"
    by (simp add: Alice_len_def)
next
  fix i
  assume "W < length tokens" and "i < length tokens - W"
  then have le: "i + W \<le> length tokens" by simp
  then show "Alice_getitem \<lparr>self_idx = tokens, self_size = int W\<rparr> (int i)
      = take W (drop i tokens)"
    by (simp add: Alice_getitem_def py_slice_window)
  with le show "length (Alice_getitem \<lparr>self_idx = tokens, self_size = int W\<rparr> (int i)) = W"
    by simp
next
  show "Alice_len \<lparr>self_idx = [0, 1, 0, 1, 2, 1, 0], self_size = 4\<rparr> = 3"
    by (simp add: Alice_len_def)
next
  show "map (Alice_getitem \<lparr>self_idx = [0, 1, 0, 1, 2, 1, 0], self_size = 4\<rparr>) [0, 1, 2]
       = [[0, 1, 0, 1], [1, 0, 1, 2], [0, 1, 2, 1]]"
    by (simp add: Alice_getitem_def py_slice_def slice_bound_def)
qed

theorem Alice_windows_witness:
  "(3::nat) < length [5, 6, 7, 8, 9 :: int]
   \<and> Alice_len \<lparr>self_idx = [5, 6, 7, 8, 9], self_size = 3\<rparr> = 2
   \<and> Alice_getitem \<lparr>self_idx = [5, 6, 7, 8, 9], self_size = 3\<rparr> 1 = [6, 7, 8]"
proof -
  have h: "(3::nat) < length [5, 6, 7, 8, 9 :: int]" by simp
  have i: "(1::nat) < length [5, 6, 7, 8, 9 :: int] - 3" by simp
  from Alice_windows [of 3 "[5, 6, 7, 8, 9]"] h i
  have "Alice_len \<lparr>self_idx = [5, 6, 7, 8, 9], self_size = int 3\<rparr> = int (length [5, 6, 7, 8, 9 :: int]) - int 3"
    and "Alice_getitem \<lparr>self_idx = [5, 6, 7, 8, 9], self_size = int 3\<rparr> (int 1)
           = take 3 (drop 1 [5, 6, 7, 8, 9])"
    by blast+
  then show ?thesis by simp
qed

lemma Alice_getitem_bounds:
  "Alice_getitem \<lparr>self_idx = tokens, self_size = int W\<rparr> i
     = take (nat (slice_bound (int (length tokens)) (i + int W)
                   - slice_bound (int (length tokens)) i))
         (drop (nat (slice_bound (int (length tokens)) i)) tokens)"
  by (simp add: Alice_getitem_def py_slice_def Let_def)

text \<open>
  Claim C3, as the code has it. \<^verbatim>\<open>__getitem__\<close> is a slice, and a slice checks no bounds:
  for an index outside \<open>[0, N - W)\<close> it raises nothing and returns the clamped slice.
  With \<open>W \<le> N\<close>: an index \<open>i \<ge> N - W\<close> gives the tokens from \<open>i\<close> to the end, at most \<open>W\<close> of
  them (all \<open>W\<close> only at \<open>i = N - W\<close>, none from \<open>i = N\<close> on); a negative index counts
  from the end, giving the full window at \<open>N + i\<close> when \<open>- N \<le> i < - W\<close>, the empty
  sequence when \<open>- W \<le> i < 0\<close>, and the first \<open>N + W + i\<close> tokens (none if that is
  negative) when \<open>i < - N\<close>.
\<close>

theorem Alice_getitem_unchecked:
  assumes "W \<le> length tokens"
  shows "(int (length tokens) - int W \<le> i \<longrightarrow>
           Alice_getitem \<lparr>self_idx = tokens, self_size = int W\<rparr> i = drop (nat i) tokens
           \<and> length (drop (nat i) tokens) \<le> W)
       \<and> (- int (length tokens) \<le> i \<and> i < - int W \<longrightarrow>
           Alice_getitem \<lparr>self_idx = tokens, self_size = int W\<rparr> i
             = take W (drop (nat (int (length tokens) + i)) tokens))
       \<and> (- int W \<le> i \<and> i < 0 \<longrightarrow>
           Alice_getitem \<lparr>self_idx = tokens, self_size = int W\<rparr> i = [])
       \<and> (i < - int (length tokens) \<longrightarrow>
           Alice_getitem \<lparr>self_idx = tokens, self_size = int W\<rparr> i
             = take (nat (int (length tokens) + int W + i)) tokens)"
proof (intro conjI impI)
  assume a: "int (length tokens) - int W \<le> i"
  then have nn: "0 \<le> i" using assms by linarith
  have len: "length (drop (nat i) tokens) \<le> W"
    using a nn by simp
  have start: "nat (slice_bound (int (length tokens)) i) = min (nat i) (length tokens)"
    using nn by (auto simp: slice_bound_def min_def)
  have count: "nat (slice_bound (int (length tokens)) (i + int W)
                 - slice_bound (int (length tokens)) i) = length tokens - nat i"
    using a nn by (auto simp: slice_bound_def min_def; linarith)
  have "Alice_getitem \<lparr>self_idx = tokens, self_size = int W\<rparr> i
      = take (length tokens - nat i) (drop (min (nat i) (length tokens)) tokens)"
    by (simp only: Alice_getitem_bounds start count)
  also have "\<dots> = drop (nat i) tokens"
    by (cases "nat i \<le> length tokens") (simp_all add: min_def)
  finally show "Alice_getitem \<lparr>self_idx = tokens, self_size = int W\<rparr> i
      = drop (nat i) tokens" .
  show "length (drop (nat i) tokens) \<le> W"
    by (rule len)
next
  assume a: "- int (length tokens) \<le> i \<and> i < - int W"
  have start: "nat (slice_bound (int (length tokens)) i) = nat (int (length tokens) + i)"
    using a by (simp add: slice_bound_def add.commute)
  have count: "nat (slice_bound (int (length tokens)) (i + int W)
                 - slice_bound (int (length tokens)) i) = W"
    using a by (simp add: slice_bound_def)
  show "Alice_getitem \<lparr>self_idx = tokens, self_size = int W\<rparr> i
      = take W (drop (nat (int (length tokens) + i)) tokens)"
    by (simp only: Alice_getitem_bounds start count)
next
  assume a: "- int W \<le> i \<and> i < 0"
  have count: "nat (slice_bound (int (length tokens)) (i + int W)
                 - slice_bound (int (length tokens)) i) = 0"
    using a assms by (simp add: slice_bound_def)
  show "Alice_getitem \<lparr>self_idx = tokens, self_size = int W\<rparr> i = []"
    by (simp only: Alice_getitem_bounds count take_0)
next
  assume a: "i < - int (length tokens)"
  have start: "nat (slice_bound (int (length tokens)) i) = 0"
    using a by (simp add: slice_bound_def)
  have "slice_bound (int (length tokens)) (i + int W) - slice_bound (int (length tokens)) i
      = max (int (length tokens) + int W + i) 0"
    using a assms by (simp add: slice_bound_def max_def)
  then have count: "nat (slice_bound (int (length tokens)) (i + int W)
                 - slice_bound (int (length tokens)) i)
      = nat (int (length tokens) + int W + i)"
    by (simp only: max_def split: if_splits) simp_all
  show "Alice_getitem \<lparr>self_idx = tokens, self_size = int W\<rparr> i
      = take (nat (int (length tokens) + int W + i)) tokens"
    by (simp only: Alice_getitem_bounds start count drop_0)
qed

theorem Alice_getitem_unchecked_witness:
  "(4::nat) \<le> length [0, 1, 0, 1, 2, 1, 0 :: int]
   \<and> Alice_getitem \<lparr>self_idx = [0, 1, 0, 1, 2, 1, 0], self_size = 4\<rparr> 3 = [1, 2, 1, 0]
   \<and> Alice_getitem \<lparr>self_idx = [0, 1, 0, 1, 2, 1, 0], self_size = 4\<rparr> 5 = [1, 0]
   \<and> Alice_getitem \<lparr>self_idx = [0, 1, 0, 1, 2, 1, 0], self_size = 4\<rparr> (- 5) = [0, 1, 2, 1]
   \<and> Alice_getitem \<lparr>self_idx = [0, 1, 0, 1, 2, 1, 0], self_size = 4\<rparr> (- 1) = []
   \<and> Alice_getitem \<lparr>self_idx = [0, 1, 0, 1, 2, 1, 0], self_size = 4\<rparr> (- 8) = [0, 1, 0]"
proof -
  have h: "(4::nat) \<le> length [0, 1, 0, 1, 2, 1, 0 :: int]" by simp
  note u = Alice_getitem_unchecked [OF h]
  from u [of 3] have "Alice_getitem \<lparr>self_idx = [0, 1, 0, 1, 2, 1, 0], self_size = 4\<rparr> 3 = [1, 2, 1, 0]"
    by simp
  moreover from u [of 5] have "Alice_getitem \<lparr>self_idx = [0, 1, 0, 1, 2, 1, 0], self_size = 4\<rparr> 5 = [1, 0]"
    by simp
  moreover from u [of "- 5"] have "Alice_getitem \<lparr>self_idx = [0, 1, 0, 1, 2, 1, 0], self_size = 4\<rparr> (- 5) = [0, 1, 2, 1]"
    by simp
  moreover from u [of "- 1"] have "Alice_getitem \<lparr>self_idx = [0, 1, 0, 1, 2, 1, 0], self_size = 4\<rparr> (- 1) = []"
    by simp
  moreover from u [of "- 8"] have "Alice_getitem \<lparr>self_idx = [0, 1, 0, 1, 2, 1, 0], self_size = 4\<rparr> (- 8) = [0, 1, 0]"
    by simp
  ultimately show ?thesis using h by simp
qed

theorem Alice_getitem_counterexample:
  "Alice_len \<lparr>self_idx = [0, 1, 0, 1, 2, 1, 0], self_size = 4\<rparr> = 3
   \<and> Alice_getitem \<lparr>self_idx = [0, 1, 0, 1, 2, 1, 0], self_size = 4\<rparr> 5 = [1, 0]"
  by (simp add: Alice_len_def Alice_getitem_def py_slice_def slice_bound_def)

subsection \<open>Sequencing and tensors\<close>

lemma sequence_err_Inr:
  assumes "\<And>x. x \<in> set xs \<Longrightarrow> f x = Inr (g x)"
  shows "sequence_err (map f xs) = Inr (map g xs)"
  using assms by (induction xs) simp_all

lemma expand_cong:
  assumes "\<And>k. k \<in> set_tensor t \<Longrightarrow> f k = g k"
  shows "expand f t = expand g t"
  using assms by (induction t) auto

lemma map_tensor_expand: "map_tensor h (expand f t) = expand (\<lambda>k. map_tensor h (f k)) t"
  by (induction t) simp_all

lemma has_shape_Scalar: "has_shape s (Scalar a) \<longleftrightarrow> s = []"
  by (cases s) simp_all

lemma has_shape_Dim:
  "has_shape s (Dim ts) \<longleftrightarrow> (\<exists>n ns. s = n # ns \<and> length ts = n \<and> (\<forall>t \<in> set ts. has_shape ns t))"
  by (cases s) (auto simp: list_all_iff)

lemma has_shape_expand:
  assumes "has_shape s t" and "\<And>k. k \<in> set_tensor t \<Longrightarrow> has_shape s' (f k)"
  shows "has_shape (s @ s') (expand f t)"
  using assms
proof (induction t arbitrary: s)
  case (Scalar a)
  then show ?case by (simp add: has_shape_Scalar)
next
  case (Dim ts)
  from Dim.prems(1) obtain n ns where s: "s = n # ns" "length ts = n"
    and sub: "\<forall>t \<in> set ts. has_shape ns t"
    by (auto simp: has_shape_Dim)
  have "has_shape (ns @ s') (expand f t)" if "t \<in> set ts" for t
    using that sub Dim.prems(2) by (intro Dim.IH) auto
  with s show ?case by (simp add: list_all_iff)
qed

lemma tensor_at_in_set: "tensor_at t p = Some k \<Longrightarrow> k \<in> set_tensor t"
proof (induction p arbitrary: t)
  case Nil
  then show ?case by (cases t) simp_all
next
  case (Cons i p)
  show ?case
  proof (cases t)
    case (Scalar a)
    with Cons.prems show ?thesis by simp
  next
    case (Dim ts)
    with Cons.prems have i: "i < length ts" and "tensor_at (ts ! i) p = Some k"
      by (simp_all split: if_splits)
    then have "k \<in> set_tensor (ts ! i)" by (intro Cons.IH)
    moreover have "ts ! i \<in> set ts" using i by simp
    ultimately show ?thesis using Dim by auto
  qed
qed

lemma tensor_at_expand:
  "tensor_at t p = Some k \<Longrightarrow> tensor_at (expand f t) (p @ q) = tensor_at (f k) q"
proof (induction p arbitrary: t)
  case Nil
  then show ?case by (cases t) simp_all
next
  case (Cons i p)
  then show ?case by (cases t) (auto split: if_splits)
qed

lemma has_shape_vec: "has_shape [n] (vec xs) \<longleftrightarrow> length xs = n"
  by (auto simp: vec_def list_all_iff)

lemma tensor_at_vec: "j < length xs \<Longrightarrow> tensor_at (vec xs) [j] = Some (xs ! j)"
  by (simp add: vec_def)

lemma map_tensor_vec: "map_tensor h (vec xs) = vec (map h xs)"
  by (simp add: vec_def)

subsection \<open>Claims about one-hot encoding\<close>

lemma index_rows_expand:
  assumes "\<And>k. k \<in> set_tensor t \<Longrightarrow> 0 \<le> k \<and> k < int (length m)"
  shows "index_rows m t = Inr (expand (\<lambda>k. vec (m ! nat k)) t)"
  using assms
proof (induction t)
  case (Scalar k)
  then have "0 \<le> k \<and> k < int (length m)" by simp
  then show ?case by (simp add: py_index_def)
next
  case (Dim ts)
  have "index_rows m t = Inr (expand (\<lambda>k. vec (m ! nat k)) t)" if "t \<in> set ts" for t
    using that Dim.prems by (intro Dim.IH) auto
  then have "sequence_err (map (index_rows m) ts)
      = Inr (map (expand (\<lambda>k. vec (m ! nat k))) ts)"
    by (rule sequence_err_Inr)
  then show ?case by simp
qed

lemma onehot_expand:
  assumes "0 \<le> V" and "\<And>k. k \<in> set_tensor t \<Longrightarrow> 0 \<le> k \<and> k < V"
  shows "onehot t V
    = Inr (expand (\<lambda>k. vec (map (\<lambda>j. if int j = k then 1 else 0) [0..<nat V])) t)"
proof -
  let ?m = "map (\<lambda>i. map (\<lambda>j. if i = j then 1 else 0 :: int) [0..<nat V]) [0..<nat V]"
  have eye: "eye V = Inr ?m" using assms(1) by (simp add: eye_def)
  have "index_rows ?m t = Inr (expand (\<lambda>k. vec (?m ! nat k)) t)"
    using assms by (intro index_rows_expand) simp
  then have "onehot t V = Inr (expand (\<lambda>k. map_tensor real_of_int (vec (?m ! nat k))) t)"
    by (simp add: onehot_def ebind_def eye map_tensor_expand)
  also have "expand (\<lambda>k. map_tensor real_of_int (vec (?m ! nat k))) t
      = expand (\<lambda>k. vec (map (\<lambda>j. if int j = k then 1 else 0) [0..<nat V])) t"
  proof (rule expand_cong)
    fix k
    assume "k \<in> set_tensor t"
    then have "0 \<le> k \<and> k < V" by (rule assms(2))
    then have k: "0 \<le> k" "nat k < nat V" by linarith+
    then have "?m ! nat k = map (\<lambda>j. if nat k = j then 1 else 0) [0..<nat V]" by simp
    moreover have "(nat k = j) = (int j = k)" for j using k by auto
    ultimately show "map_tensor real_of_int (vec (?m ! nat k))
        = vec (map (\<lambda>j. if int j = k then 1 else 0) [0..<nat V])"
      by (simp add: map_tensor_vec o_def if_distrib [of real_of_int] cong: if_cong)
  qed
  finally show ?thesis .
qed

text \<open>
  Claim C4. For an integer tensor of shape \<open>s\<close> whose entries all lie in \<open>[0, V)\<close>,
  \<^verbatim>\<open>onehot\<close> returns a tensor of shape \<open>s\<close> followed by \<open>V\<close>; at every position \<open>p\<close> of the
  input, holding the index \<open>k\<close>, the \<open>V\<close> coordinates \<open>j\<close> of the result at \<open>p\<close> are \<open>1\<close> for
  \<open>j = k\<close> and \<open>0\<close> for every other \<open>j\<close>. The result is a function of the two arguments
  alone.
\<close>

theorem onehot_correct:
  assumes "0 \<le> V" and "has_shape s t" and "\<forall>k \<in> set_tensor t. 0 \<le> k \<and> k < V"
  shows "\<exists>r. onehot t V = Inr r \<and> has_shape (s @ [nat V]) r
           \<and> (\<forall>p k. tensor_at t p = Some k \<longrightarrow>
                (\<forall>j < nat V. tensor_at r (p @ [j]) = Some (if int j = k then 1 else 0)))"
proof -
  let ?f = "\<lambda>k. vec (map (\<lambda>j. if int j = k then 1 else 0 :: real) [0..<nat V])"
  have r: "onehot t V = Inr (expand ?f t)"
    using assms(1,3) by (intro onehot_expand) auto
  have "has_shape [nat V] (?f k)" for k
    unfolding has_shape_vec by simp
  with assms(2) have sh: "has_shape (s @ [nat V]) (expand ?f t)"
    by (rule has_shape_expand)
  have at: "tensor_at (expand ?f t) (p @ [j]) = Some (if int j = k then 1 else 0)"
    if "tensor_at t p = Some k" and "j < nat V" for p k j
    using that by (simp add: tensor_at_expand tensor_at_vec)
  from r sh at show ?thesis by blast
qed

theorem onehot_correct_witness:
  "(0::int) \<le> 3 \<and> has_shape [2, 2] (mat [[0, 2], [1, 1 :: int]])
   \<and> set_tensor (mat [[0, 2], [1, 1 :: int]]) = {0, 1, 2}
   \<and> onehot (mat [[0, 2], [1, 1]]) 3
       = Inr (Dim [mat [[1, 0, 0], [0, 0, 1]], mat [[0, 1, 0], [0, 1, 0]]])
   \<and> has_shape [2, 2, 3] (Dim [mat [[1, 0, 0], [0, 0, 1]], mat [[0, 1, 0], [0, 1, 0 :: real]]])"
proof -
  have v: "(0::int) \<le> 3" by simp
  have sh: "has_shape [2, 2] (mat [[0, 2], [1, 1 :: int]])"
    by (simp add: mat_def vec_def)
  have st: "set_tensor (mat [[0, 2], [1, 1 :: int]]) = {0, 1, 2}"
    by (auto simp: mat_def vec_def)
  then have rng: "\<forall>k \<in> set_tensor (mat [[0, 2], [1, 1 :: int]]). 0 \<le> k \<and> k < 3"
    by simp
  have val: "onehot (mat [[0, 2], [1, 1]]) 3
       = Inr (Dim [mat [[1, 0, 0], [0, 0, 1]], mat [[0, 1, 0], [0, 1, 0]]])"
    by (simp add: onehot_def eye_def ebind_def mat_def vec_def py_index_def upt_rec)
  from onehot_correct [OF v sh rng] obtain r where
    "onehot (mat [[0, 2], [1, 1]]) 3 = Inr r" and "has_shape ([2, 2] @ [nat 3]) r"
    by blast
  with val have "has_shape [2, 2, 3]
      (Dim [mat [[1, 0, 0], [0, 0, 1]], mat [[0, 1, 0], [0, 1, 0 :: real]]])"
    by (simp add: eval_nat_numeral)
  with v sh st val show ?thesis by blast
qed

subsection \<open>Claims about teacher forcing\<close>

lemma py_slice_all: "py_slice xs None None = xs"
  by (simp add: py_slice_def)

lemma py_slice_drop_last: "py_slice xs None (Some (- 1)) = butlast xs"
proof -
  have "nat (max (int (length xs) - 1) 0) = length xs - 1" by simp
  then show ?thesis
    by (simp add: py_slice_def slice_bound_def butlast_conv_take)
qed

lemma py_slice_drop_first: "py_slice xs (Some 1) None = tl xs"
proof (cases xs)
  case Nil
  then show ?thesis by (simp add: py_slice_def slice_bound_def)
next
  case (Cons x xs')
  then show ?thesis by (simp add: py_slice_def slice_bound_def)
qed

lemma slice_at_0_all: "slice_at 0 None None (Dim ts) = Inr (Dim ts)"
  by (simp add: py_slice_all)

lemma slice_at_1_rows:
  "slice_at 1 a b (Dim (map (\<lambda>w. Dim (g w)) ws))
     = Inr (Dim (map (\<lambda>w. Dim (py_slice (g w) a b)) ws))"
proof -
  have "sequence_err (map (slice_at 0 a b) (map (\<lambda>w. Dim (g w)) ws))
      = Inr (map (\<lambda>t. case t of Dim ts \<Rightarrow> Dim (py_slice ts a b) | Scalar x \<Rightarrow> Scalar x)
               (map (\<lambda>w. Dim (g w)) ws))"
    by (rule sequence_err_Inr) auto
  then show ?thesis by (simp add: o_def)
qed

lemma slice_at_2_all:
  "slice_at 2 None None (Dim (map (\<lambda>w. Dim (map (\<lambda>k. Dim (h k)) (u w))) ws))
     = Inr (Dim (map (\<lambda>w. Dim (map (\<lambda>k. Dim (h k)) (u w))) ws))"
proof -
  have two: "(2::nat) = Suc 1" by simp
  have "sequence_err (map (slice_at 1 None None) (map (\<lambda>w. Dim (map (\<lambda>k. Dim (h k)) (u w))) ws))
      = Inr (map (\<lambda>t. t) (map (\<lambda>w. Dim (map (\<lambda>k. Dim (h k)) (u w))) ws))"
  proof (rule sequence_err_Inr)
    fix x
    assume "x \<in> set (map (\<lambda>w. Dim (map (\<lambda>k. Dim (h k)) (u w))) ws)"
    then obtain w where x: "x = Dim (map (\<lambda>k. Dim (h k)) (u w))" by auto
    show "slice_at 1 None None x = Inr x"
      unfolding x by (simp only: slice_at_1_rows py_slice_all)
  qed
  then show ?thesis by (simp only: two slice_at.simps list.map_ident sum.case)
qed

lemma expand_mat: "expand f (mat ws) = Dim (map (\<lambda>w. Dim (map f w)) ws)"
  by (simp add: mat_def vec_def o_def)

lemma set_tensor_mat: "set_tensor (mat ws) = (\<Union>w \<in> set ws. set w)"
  by (auto simp: mat_def vec_def)

lemma train_batch_io_mat:
  assumes "\<And>w k. w \<in> set ws \<Longrightarrow> k \<in> set w \<Longrightarrow> 0 \<le> k \<and> k < input_size"
  shows "train_batch_io (mat ws)
    = Inr (Dim (map (\<lambda>w. Dim (map (\<lambda>k. vec (map (\<lambda>j. if int j = k then 1 else 0) [0..<28]))
                                (butlast w))) ws),
           mat (map tl ws))"
proof -
  let ?row = "\<lambda>k::int. map (\<lambda>j. Scalar (if int j = k then 1 else 0 :: real)) [0..<28]"
  have sz: "input_size = 28" by (simp add: input_size_def length_chars)
  have "onehot (mat ws) input_size
      = Inr (expand (\<lambda>k. vec (map (\<lambda>j. if int j = k then 1 else 0) [0..<nat input_size]))
               (mat ws))"
    using assms by (intro onehot_expand) (auto simp: sz set_tensor_mat)
  then have oh: "onehot (mat ws) input_size = Inr (Dim (map (\<lambda>w. Dim (map (\<lambda>k. Dim (?row k)) w)) ws))"
    by (simp add: sz expand_mat vec_def o_def)
  have s1: "slice_at 1 None (Some (- 1)) (Dim (map (\<lambda>w. Dim (map (\<lambda>k. Dim (?row k)) w)) ws))
      = Inr (Dim (map (\<lambda>w. Dim (map (\<lambda>k. Dim (?row k)) (butlast w))) ws))"
    by (simp only: slice_at_1_rows py_slice_drop_last map_butlast)
  have s2: "slice_at 2 None None (Dim (map (\<lambda>w. Dim (map (\<lambda>k. Dim (?row k)) (butlast w))) ws))
      = Inr (Dim (map (\<lambda>w. Dim (map (\<lambda>k. Dim (?row k)) (butlast w))) ws))"
    by (rule slice_at_2_all)
  have t1: "slice_at 1 (Some 1) None (mat ws) = Inr (mat (map tl ws))"
  proof -
    have "slice_at 1 (Some 1) None (Dim (map (\<lambda>w. Dim (map Scalar w)) ws))
        = Inr (Dim (map (\<lambda>w. Dim (py_slice (map Scalar w) (Some 1) None)) ws))"
      by (rule slice_at_1_rows)
    then show ?thesis
      by (simp add: mat_def vec_def o_def py_slice_drop_first map_tl)
  qed
  have t0: "slice_at 0 None None (mat ws) = Inr (mat ws)"
    by (simp only: mat_def slice_at_0_all)
  show ?thesis
    unfolding train_batch_io_def
    by (simp only: oh ebind_def sum.case slice_at_0_all s1 s2 t0 t1)
       (simp add: vec_def o_def)
qed

text \<open>
  Claim C5. For a batch of windows of length \<open>W\<close> (at least one token long, tokens in
  the vocabulary range), the loop body builds inputs of shape (batch, \<open>W - 1\<close>, 28) and
  targets of shape (batch, \<open>W - 1\<close>): the input of window \<open>b\<close> at position \<open>t\<close> is the one-hot
  vector of token \<open>t\<close> of the window (the last token is dropped), and the target at
  position \<open>t\<close> is token \<open>t + 1\<close> of the window (the first token is dropped), the token that
  follows the input token.
\<close>

theorem teacher_forcing:
  assumes "1 \<le> W" and "\<forall>w \<in> set ws. length w = W"
    and "\<forall>w \<in> set ws. \<forall>k \<in> set w. 0 \<le> k \<and> k < input_size"
  shows "\<exists>inputs targets. train_batch_io (mat ws) = Inr (inputs, targets)
           \<and> has_shape [length ws, W - 1, 28] inputs
           \<and> has_shape [length ws, W - 1] targets
           \<and> (\<forall>b < length ws. \<forall>t < W - 1.
                tensor_at targets [b, t] = Some (ws ! b ! (t + 1))
                \<and> (\<forall>j < 28. tensor_at inputs [b, t, j]
                              = Some (if int j = ws ! b ! t then 1 else 0)))"
proof -
  let ?oh = "\<lambda>k::int. vec (map (\<lambda>j. if int j = k then 1 else 0 :: real) [0..<28])"
  let ?inputs = "Dim (map (\<lambda>w. Dim (map ?oh (butlast w))) ws)"
  let ?targets = "mat (map tl ws)"
  have io: "train_batch_io (mat ws) = Inr (?inputs, ?targets)"
    using assms(3) by (intro train_batch_io_mat) blast
  have shi: "has_shape [length ws, W - 1, 28] ?inputs"
    using assms(2) by (simp add: list_all_iff has_shape_vec vec_def)
  have sht: "has_shape [length ws, W - 1] ?targets"
    using assms(2) by (simp add: list_all_iff mat_def vec_def)
  have at: "tensor_at ?targets [b, t] = Some (ws ! b ! (t + 1))
      \<and> (\<forall>j < 28. tensor_at ?inputs [b, t, j] = Some (if int j = ws ! b ! t then 1 else 0))"
    if b: "b < length ws" and t: "t < W - 1" for b t
  proof -
    have len: "length (ws ! b) = W" using assms(2) b by simp
    have "tensor_at ?targets [b, t] = Some (tl (ws ! b) ! t)"
      using b t len by (simp add: mat_def vec_def)
    moreover have "tl (ws ! b) ! t = ws ! b ! (t + 1)"
      using t len by (simp add: nth_tl)
    moreover have "tensor_at ?inputs [b, t, j] = Some (if int j = ws ! b ! t then 1 else 0)"
      if "j < 28" for j
    proof -
      have "butlast (ws ! b) ! t = ws ! b ! t"
        using t len by (simp add: nth_butlast)
      then show ?thesis
        using b t len that by (simp add: vec_def)
    qed
    ultimately show ?thesis by simp
  qed
  from io shi sht at show ?thesis by blast
qed

theorem teacher_forcing_witness:
  "(1::nat) \<le> 3 \<and> map length [[0, 1, 2], [3, 4, 27 :: int]] = [3, 3]
   \<and> (\<exists>inputs. train_batch_io (mat [[0, 1, 2], [3, 4, 27]])
                  = Inr (inputs, mat [[1, 2], [4, 27]])
        \<and> tensor_at inputs [1, 1, 4] = Some 1 \<and> tensor_at inputs [1, 1, 27] = Some 0)"
proof -
  have w: "(1::nat) \<le> 3" by simp
  have l: "\<forall>w \<in> set [[0, 1, 2], [3, 4, 27 :: int]]. length w = 3" by simp
  have r: "\<forall>w \<in> set [[0, 1, 2], [3, 4, 27]]. \<forall>k \<in> set w. 0 \<le> k \<and> k < input_size"
    by (simp add: input_size_def length_chars)
  from teacher_forcing [OF w l r] obtain inputs targets where
    io: "train_batch_io (mat [[0, 1, 2], [3, 4, 27]]) = Inr (inputs, targets)"
    and sh: "has_shape [length [[0, 1, 2], [3, 4, 27 :: int]], 3 - 1] targets"
    and at: "\<forall>b < length [[0, 1, 2], [3, 4, 27 :: int]]. \<forall>t < 3 - 1.
                tensor_at targets [b, t] = Some ([[0, 1, 2], [3, 4, 27]] ! b ! (t + 1))
                \<and> (\<forall>j < 28. tensor_at inputs [b, t, j]
                              = Some (if int j = [[0, 1, 2], [3, 4, 27]] ! b ! t then 1 else 0))"
    by blast
  have "\<exists>x. train_batch_io (mat [[0, 1, 2], [3, 4, 27]])
               = Inr (x, mat (map tl [[0, 1, 2], [3, 4, 27]]))"
  proof (intro exI, rule train_batch_io_mat)
    fix w k
    assume "w \<in> set [[0, 1, 2], [3, 4, 27 :: int]]" and "k \<in> set w"
    with r show "0 \<le> k \<and> k < input_size" by blast
  qed
  with io have "targets = mat [[1, 2], [4, 27]]" by auto
  moreover from at have "tensor_at inputs [1, 1, 4] = Some 1" by simp
  moreover from at have "tensor_at inputs [1, 1, 27] = Some 0" by simp
  ultimately show ?thesis using w io by auto
qed

subsection \<open>Claims about the network object\<close>

lemma forward_fresh:
  "forward ops net rng x True =
     (case lstm_fn ops (weights net) x (zero_state x) of
        Inl e \<Rightarrow> Inl e
      | Inr (y, h) \<Rightarrow>
          Inr (linear_fn ops (weights net) (fst (nn_Dropout ops (training net) rng y)),
               net\<lparr>hiddens := Some h\<rparr>,
               snd (nn_Dropout ops (training net) rng y)))"
  by (simp add: forward_def ebind_def nn_LSTM_def Let_def case_prod_unfold
      split: sum.splits)

lemma forward_continued:
  "forward ops net rng x False =
     (case hiddens net of
        None \<Rightarrow> Inl AttributeError
      | Some h0 \<Rightarrow>
          (case lstm_fn ops (weights net) x h0 of
             Inl e \<Rightarrow> Inl e
           | Inr (y, h) \<Rightarrow>
               Inr (linear_fn ops (weights net) (fst (nn_Dropout ops (training net) rng y)),
                    net\<lparr>hiddens := Some h\<rparr>,
                    snd (nn_Dropout ops (training net) rng y))))"
  by (simp add: forward_def ebind_def nn_LSTM_def get_hiddens_def Let_def case_prod_unfold
      split: sum.splits option.splits)

lemma zero_state_zero:
  "set (concat (concat (fst (zero_state x)))) \<subseteq> {0}
   \<and> set (concat (concat (snd (zero_state x)))) \<subseteq> {0}"
  by (auto simp: zero_state_def Let_def)

text \<open>
  Claim C6. A call of \<^verbatim>\<open>forward\<close> that completes, in either mode, leaves in
  \<^verbatim>\<open>self.hiddens\<close> the final state the recurrent layer returned in that call, replacing
  what was stored, and changes nothing else of the object. In fresh mode the recurrent
  layer starts from the state whose entries are all zero, and the result does not depend
  on what was stored before; in continued mode it starts from exactly the stored state,
  that is, the one the preceding completed call left. The call completes whenever the
  recurrent layer does (and, in continued mode, a state is stored).
\<close>

theorem forward_stores_state:
  "(\<forall>y h. lstm_fn ops (weights net) x (zero_state x) = Inr (y, h) \<longrightarrow>
      (\<exists>out rng'. forward ops net rng x True = Inr (out, net\<lparr>hiddens := Some h\<rparr>, rng')))
   \<and> (\<forall>h0 y h. hiddens net = Some h0 \<and> lstm_fn ops (weights net) x h0 = Inr (y, h) \<longrightarrow>
      (\<exists>out rng'. forward ops net rng x False = Inr (out, net\<lparr>hiddens := Some h\<rparr>, rng')))
   \<and> (\<forall>out net' rng'. forward ops net rng x zero_hidden = Inr (out, net', rng') \<longrightarrow>
      (\<exists>y h. lstm_fn ops (weights net) x
                 (if zero_hidden then zero_state x else the (hiddens net)) = Inr (y, h)
             \<and> (\<not> zero_hidden \<longrightarrow> hiddens net \<noteq> None)
             \<and> net' = net\<lparr>hiddens := Some h\<rparr>))
   \<and> (\<forall>stored. forward ops (net\<lparr>hiddens := stored\<rparr>) rng x True = forward ops net rng x True)
   \<and> set (concat (concat (fst (zero_state x)))) \<subseteq> {0}
   \<and> set (concat (concat (snd (zero_state x)))) \<subseteq> {0}"
proof (intro conjI allI impI)
  fix y h
  assume "lstm_fn ops (weights net) x (zero_state x) = Inr (y, h)"
  then show "\<exists>out rng'. forward ops net rng x True = Inr (out, net\<lparr>hiddens := Some h\<rparr>, rng')"
    by (simp add: forward_fresh)
next
  fix h0 y h
  assume "hiddens net = Some h0 \<and> lstm_fn ops (weights net) x h0 = Inr (y, h)"
  then show "\<exists>out rng'. forward ops net rng x False = Inr (out, net\<lparr>hiddens := Some h\<rparr>, rng')"
    by (simp add: forward_continued)
next
  fix out net' rng'
  assume a: "forward ops net rng x zero_hidden = Inr (out, net', rng')"
  show "\<exists>y h. lstm_fn ops (weights net) x
                 (if zero_hidden then zero_state x else the (hiddens net)) = Inr (y, h)
             \<and> (\<not> zero_hidden \<longrightarrow> hiddens net \<noteq> None)
             \<and> net' = net\<lparr>hiddens := Some h\<rparr>"
  proof (cases zero_hidden)
    case True
    with a show ?thesis
      by (auto simp: forward_fresh split: sum.splits)
  next
    case False
    with a show ?thesis
      by (auto simp: forward_continued split: sum.splits option.splits)
  qed
next
  fix stored
  show "forward ops (net\<lparr>hiddens := stored\<rparr>) rng x True = forward ops net rng x True"
    by (simp add: forward_fresh split: sum.splits)
next
  show "set (concat (concat (fst (zero_state x)))) \<subseteq> {0}"
    using zero_state_zero [of x] by simp
  show "set (concat (concat (snd (zero_state x)))) \<subseteq> {0}"
    using zero_state_zero [of x] by simp
qed

lemma const_ops_lstm:
  "lstm_fn (const_ops k) w x (h, c)
     = Inr (x, (h, map (map (map (\<lambda>v. v + real (length (concat x))))) c))"
  by (simp add: const_ops_def)

theorem forward_stores_state_witness:
  "lstm_fn (const_ops 0) () [[[1, 0], [0, 1]]] (zero_state [[[1, 0], [0, 1]]])
     = Inr ([[[1, 0], [0, 1]]], ([[replicate 128 0]], [[replicate 128 2]]))
   \<and> (\<exists>out rng'. forward (const_ops 0) (MyRNN_init ()) 7 [[[1, 0], [0, 1]]] True
        = Inr (out, \<lparr>weights = (), training = True,
                     hiddens = Some ([[replicate 128 0]], [[replicate 128 2]])\<rparr>, rng'))
   \<and> (\<exists>out rng'. forward (const_ops 0)
          \<lparr>weights = (), training = True,
           hiddens = Some ([[replicate 128 0]], [[replicate 128 2]])\<rparr> 8 [[[0, 1]]] False
        = Inr (out, \<lparr>weights = (), training = True,
                     hiddens = Some ([[replicate 128 0]], [[replicate 128 3]])\<rparr>, rng'))"
proof -
  let ?x = "[[[1, 0], [0, 1 :: real]]]"
  let ?net1 = "\<lparr>weights = (), training = True,
                hiddens = Some ([[replicate 128 (0::real)]], [[replicate 128 (2::real)]])\<rparr>"
  have z: "zero_state ?x = ([[replicate 128 0]], [[replicate 128 0]])"
    by (simp add: zero_state_def Let_def)
  have l1: "lstm_fn (const_ops 0) (weights (MyRNN_init ())) ?x (zero_state ?x)
      = Inr (?x, ([[replicate 128 0]], [[replicate 128 2]]))"
    by (simp add: z const_ops_lstm)
  have l2: "hiddens ?net1 = Some ([[replicate 128 0]], [[replicate 128 2]])
      \<and> lstm_fn (const_ops 0) (weights ?net1) [[[0, 1]]] ([[replicate 128 0]], [[replicate 128 2]])
      = Inr ([[[0, 1]]], ([[replicate 128 0]], [[replicate 128 3]]))"
    by (simp add: const_ops_lstm)
  from forward_stores_state [of "const_ops 0" "MyRNN_init ()" ?x 7 True] l1
  have c1: "\<exists>out rng'. forward (const_ops 0) (MyRNN_init ()) 7 ?x True
      = Inr (out, MyRNN_init ()\<lparr>hiddens := Some ([[replicate 128 0]], [[replicate 128 2]])\<rparr>, rng')"
    by blast
  from forward_stores_state [of "const_ops 0" ?net1 "[[[0, 1]]]" 8 False] l2
  have c2: "\<exists>out rng'. forward (const_ops 0) ?net1 8 [[[0, 1]]] False
      = Inr (out, ?net1\<lparr>hiddens := Some ([[replicate 128 0]], [[replicate 128 3]])\<rparr>, rng')"
    by blast
  from l1 c1 c2 show ?thesis by (simp add: MyRNN_init_def)
qed

text \<open>
  Claim C10. \<^verbatim>\<open>__init__\<close> creates no attribute \<^verbatim>\<open>hiddens\<close>, and a call in continued mode on
  an object without it raises AttributeError, whatever the input; in particular on a
  freshly constructed object. Only a completed call creates the attribute: an object
  returned by a completed call has it, and a call that raised returns no object. So
  continued mode needs a completed call before it.
\<close>

theorem forward_continued_needs_call:
  "hiddens (MyRNN_init w) = None
   \<and> forward ops (MyRNN_init w) rng x False = Inl AttributeError
   \<and> (hiddens net = None \<longrightarrow> forward ops net rng x False = Inl AttributeError)
   \<and> (\<forall>out net' rng'. forward ops net rng x zero_hidden = Inr (out, net', rng') \<longrightarrow>
        hiddens net' \<noteq> None
        \<and> (\<forall>x' rng''. forward ops net' rng'' x' False
              = (case lstm_fn ops (weights net') x' (the (hiddens net')) of
                   Inl e \<Rightarrow> Inl e
                 | Inr (y, h) \<Rightarrow>
                     Inr (linear_fn ops (weights net')
                            (fst (nn_Dropout ops (training net') rng'' y)),
                          net'\<lparr>hiddens := Some h\<rparr>,
                          snd (nn_Dropout ops (training net') rng'' y)))))"
proof (intro conjI allI impI)
  show "hiddens (MyRNN_init w) = None" by (simp add: MyRNN_init_def)
  show "forward ops (MyRNN_init w) rng x False = Inl AttributeError"
    by (simp add: forward_continued MyRNN_init_def)
next
  assume "hiddens net = None"
  then show "forward ops net rng x False = Inl AttributeError"
    by (simp add: forward_continued)
next
  fix out net' rng'
  assume a: "forward ops net rng x zero_hidden = Inr (out, net', rng')"
  then show h: "hiddens net' \<noteq> None"
    by (cases zero_hidden)
       (auto simp: forward_fresh forward_continued split: sum.splits option.splits)
  fix x' rng''
  from h show "forward ops net' rng'' x' False
      = (case lstm_fn ops (weights net') x' (the (hiddens net')) of
           Inl e \<Rightarrow> Inl e
         | Inr (y, h) \<Rightarrow>
             Inr (linear_fn ops (weights net') (fst (nn_Dropout ops (training net') rng'' y)),
                  net'\<lparr>hiddens := Some h\<rparr>,
                  snd (nn_Dropout ops (training net') rng'' y)))"
    by (auto simp: forward_continued split: option.splits)
qed

theorem forward_continued_needs_call_witness:
  "forward (const_ops 0) (MyRNN_init ()) 7 [[[0, 1]]] False = Inl AttributeError
   \<and> (\<exists>out net' rng'. forward (const_ops 0) (MyRNN_init ()) 7 [[[0, 1]]] True
                         = Inr (out, net', rng')
        \<and> hiddens net' \<noteq> None
        \<and> forward (const_ops 0) net' rng' [[[0, 1]]] False \<noteq> Inl AttributeError)"
proof -
  have n: "hiddens (MyRNN_init ()) = None" by (simp add: MyRNN_init_def)
  have first: "forward (const_ops 0) (MyRNN_init ()) 7 [[[0, 1]]] False = Inl AttributeError"
    using forward_continued_needs_call [of "()" "const_ops 0" 7 "[[[0, 1]]]" "MyRNN_init ()"] n
    by blast
  obtain out net' rng' where
    f: "forward (const_ops 0) (MyRNN_init ()) 7 [[[0, 1]]] True = Inr (out, net', rng')"
    by (cases "zero_state [[[0, 1]]]") (auto simp: forward_fresh const_ops_lstm)
  from forward_continued_needs_call
         [of "()" "const_ops 0" 7 "[[[0, 1]]]" "MyRNN_init ()" True] f
  have h: "hiddens net' \<noteq> None"
    and c: "forward (const_ops 0) net' rng' [[[0, 1]]] False
      = (case lstm_fn (const_ops 0) (weights net') [[[0, 1]]] (the (hiddens net')) of
           Inl e \<Rightarrow> Inl e
         | Inr (y, h) \<Rightarrow>
             Inr (linear_fn (const_ops 0) (weights net')
                    (fst (nn_Dropout (const_ops 0) (training net') rng' y)),
                  net'\<lparr>hiddens := Some h\<rparr>,
                  snd (nn_Dropout (const_ops 0) (training net') rng' y)))"
    by blast+
  have "forward (const_ops 0) net' rng' [[[0, 1]]] False \<noteq> Inl AttributeError"
    unfolding c by (cases "the (hiddens net')") (simp add: const_ops_lstm)
  with first f h show ?thesis by blast
qed

subsection \<open>Claims about generation\<close>

lemma forward_eval:
  assumes "training net = False"
  shows "forward ops net rng x z =
     (case (if z then Inr (zero_state x) else get_hiddens net) of
        Inl e \<Rightarrow> Inl e
      | Inr h0 \<Rightarrow>
          (case lstm_fn ops (weights net) x h0 of
             Inl e \<Rightarrow> Inl e
           | Inr (y, h) \<Rightarrow> Inr (linear_fn ops (weights net) y, net\<lparr>hiddens := Some h\<rparr>, rng)))"
  using assms
  by (cases z)
     (simp_all add: forward_fresh forward_continued get_hiddens_def nn_Dropout_def
        split: sum.splits option.splits)

lemma gen_step_rng:
  assumes "training (g_net s) = False"
  shows "gen_step ops (s\<lparr>g_rng := r\<rparr>)
     = (case gen_step ops s of Inl e \<Rightarrow> Inl e | Inr s' \<Rightarrow> Inr (s'\<lparr>g_rng := r\<rparr>))"
  using assms
  by (simp add: gen_step_def ebind_def forward_eval split: sum.splits prod.splits)

lemma gen_step_training:
  assumes "gen_step ops s = Inr s'"
  shows "training (g_net s') = training (g_net s)"
  using assms
  by (cases "g_zero_hidden s")
     (auto simp: gen_step_def ebind_def forward_fresh forward_continued
        split: sum.splits prod.splits option.splits)

lemma gen_loop_rng:
  assumes "training (g_net s) = False"
  shows "gen_loop ops n (s\<lparr>g_rng := r\<rparr>)
     = (case gen_loop ops n s of Inl e \<Rightarrow> Inl e | Inr s' \<Rightarrow> Inr (s'\<lparr>g_rng := r\<rparr>))"
  using assms
proof (induction n arbitrary: s)
  case 0
  show ?case by simp
next
  case (Suc n)
  show ?case
  proof (cases "gen_step ops s")
    case (Inl e)
    with Suc.prems show ?thesis by (simp add: gen_step_rng ebind_def)
  next
    case (Inr s')
    with Suc.prems have "training (g_net s') = False"
      using gen_step_training [of ops s s'] by simp
    then have "gen_loop ops n (s'\<lparr>g_rng := r\<rparr>)
        = (case gen_loop ops n s' of Inl e \<Rightarrow> Inl e | Inr s'' \<Rightarrow> Inr (s''\<lparr>g_rng := r\<rparr>))"
      by (rule Suc.IH)
    with Inr Suc.prems show ?thesis by (simp add: gen_step_rng ebind_def)
  qed
qed

lemma gen_step_fresh:
  assumes "g_zero_hidden s"
  shows "gen_step ops (s\<lparr>g_net := (g_net s)\<lparr>hiddens := stored\<rparr>\<rparr>) = gen_step ops s"
  using assms
  by (simp add: gen_step_def ebind_def forward_fresh split: sum.splits prod.splits)

lemma gen_loop_fresh:
  assumes "g_zero_hidden s"
  shows "ebind (gen_loop ops n (s\<lparr>g_net := (g_net s)\<lparr>hiddens := stored\<rparr>\<rparr>)) (\<lambda>s. Inr (g_output s))
     = ebind (gen_loop ops n s) (\<lambda>s. Inr (g_output s))"
proof (cases n)
  case 0
  show ?thesis unfolding 0 by (simp add: ebind_def)
next
  case (Suc m)
  show ?thesis unfolding Suc using assms by (simp add: gen_step_fresh)
qed

text \<open>
  Claim C7. The text the generation cell produces is determined by the restored
  parameters, the primer and the length: it is the same whatever state the random
  generator is in and whatever the network object held before (its parameters are
  overwritten by the checkpoint, the cell puts it in evaluation mode, where dropout is
  inactive, and the first call starts from the zero state). So two runs with the same
  parameters, primer and length give the same text, or fail alike.
\<close>

theorem generate_deterministic:
  "generate lower ops w net1 rng1 pretext gen_length
     = generate lower ops w net2 rng2 pretext gen_length"
proof -
  let ?s = "\<lambda>net rng. gen_init lower w net rng pretext"
  have tr: "training (g_net (?s net1 rng1)) = False"
    by (simp add: gen_init_def)
  have z: "g_zero_hidden (?s net1 rng1)"
    by (simp add: gen_init_def)
  have "net2\<lparr>weights := w, training := False\<rparr>
      = net1\<lparr>weights := w, training := False, hiddens := hiddens net2\<rparr>"
    by simp
  then have s2: "?s net2 rng2
      = (?s net1 rng1)\<lparr>g_net := (g_net (?s net1 rng1))\<lparr>hiddens := hiddens net2\<rparr>,
                       g_rng := rng2\<rparr>"
    by (simp add: gen_init_def)
  let ?t = "(?s net1 rng1)\<lparr>g_net := (g_net (?s net1 rng1))\<lparr>hiddens := hiddens net2\<rparr>\<rparr>"
  have "training (g_net ?t) = False" by (simp add: gen_init_def)
  then have "gen_loop ops (nat gen_length) (?t\<lparr>g_rng := rng2\<rparr>)
      = (case gen_loop ops (nat gen_length) ?t of
           Inl e \<Rightarrow> Inl e | Inr s' \<Rightarrow> Inr (s'\<lparr>g_rng := rng2\<rparr>))"
    by (rule gen_loop_rng)
  then have "ebind (gen_loop ops (nat gen_length) (?t\<lparr>g_rng := rng2\<rparr>)) (\<lambda>s. Inr (g_output s))
      = ebind (gen_loop ops (nat gen_length) ?t) (\<lambda>s. Inr (g_output s))"
    by (simp add: ebind_def split: sum.splits)
  also have "\<dots> = ebind (gen_loop ops (nat gen_length) (?s net1 rng1)) (\<lambda>s. Inr (g_output s))"
    using z by (rule gen_loop_fresh)
  finally show ?thesis
    unfolding generate_def s2 by simp
qed

theorem generate_deterministic_witness:
  "generate ascii_lower (const_ops 1) () (MyRNN_init ()) 3 (str_of ''Hi'') 2
     = Inr (str_of ''Hibb'')
   \<and> generate ascii_lower (const_ops 1) ()
        \<lparr>weights = (), training = True, hiddens = Some ([[[5]]], [[[6]]])\<rparr> 9 (str_of ''Hi'') 2
     = Inr (str_of ''Hibb'')"
proof -
  have "generate ascii_lower (const_ops 1) () (MyRNN_init ()) 3 (str_of ''Hi'') 2
     = Inr (str_of ''Hibb'')"
    by code_simp
  then show ?thesis
    using generate_deterministic [of ascii_lower "const_ops 1" "()" "MyRNN_init ()" 3
        "str_of ''Hi''" 2 "\<lparr>weights = (), training = True, hiddens = Some ([[[5]]], [[[6]]])\<rparr>" 9]
    by simp
qed

lemma sequence_err_scalars: "sequence_err (map scalar_of (map Scalar xs)) = Inr xs"
  by (induction xs) (simp_all add: scalar_of_def)

lemma net_input_valid:
  assumes "\<And>k. k \<in> set toks \<Longrightarrow> 0 \<le> k \<and> k < input_size"
  shows "net_input toks
     = Inr [map (\<lambda>k. map (\<lambda>j. if int j = k then 1 else 0) [0..<28]) toks]"
proof -
  let ?row = "\<lambda>k::int. map (\<lambda>j. if int j = k then 1 else 0 :: real) [0..<28]"
  have sz: "input_size = 28" by (simp add: input_size_def length_chars)
  have "onehot (vec toks) input_size
      = Inr (expand (\<lambda>k. vec (map (\<lambda>j. if int j = k then 1 else 0) [0..<nat input_size]))
               (vec toks))"
    using assms by (intro onehot_expand) (auto simp: sz vec_def)
  then have oh: "onehot (vec toks) input_size = Inr (Dim (map (\<lambda>k. vec (?row k)) toks))"
    by (simp add: sz vec_def o_def)
  have "sequence_err (map (\<lambda>s. ebind (dim_of s) (\<lambda>xs. sequence_err (map scalar_of xs)))
                        (map (\<lambda>k. vec (?row k)) toks))
      = Inr (map (\<lambda>t. case t of Dim xs \<Rightarrow> map (\<lambda>x. case x of Scalar a \<Rightarrow> a | Dim _ \<Rightarrow> 0) xs
                             | Scalar _ \<Rightarrow> [])
               (map (\<lambda>k. vec (?row k)) toks))"
  proof (rule sequence_err_Inr)
    fix t
    assume "t \<in> set (map (\<lambda>k. vec (?row k)) toks)"
    then obtain k where t: "t = vec (?row k)" by auto
    have "sequence_err (map scalar_of (map Scalar (?row k))) = Inr (?row k)"
      by (rule sequence_err_scalars)
    then show "ebind (dim_of t) (\<lambda>xs. sequence_err (map scalar_of xs))
        = Inr (case t of Dim xs \<Rightarrow> map (\<lambda>x. case x of Scalar a \<Rightarrow> a | Dim _ \<Rightarrow> 0) xs
                       | Scalar _ \<Rightarrow> [])"
      unfolding t vec_def by (simp add: ebind_def dim_of_def o_def)
  qed
  then have "tensor3_of (unsqueeze0 (Dim (map (\<lambda>k. vec (?row k)) toks)))
      = Inr [map ?row toks]"
    by (simp add: tensor3_of_def unsqueeze0_def ebind_def dim_of_def vec_def o_def)
  with oh show ?thesis by (simp add: net_input_def ebind_def)
qed

lemma gen_step_unfold:
  "gen_step ops s =
     ebind (net_input (g_idx s)) (\<lambda>inputs.
     ebind (forward ops (g_net s) (g_rng s) inputs (g_zero_hidden s)) (\<lambda>(outputs, net', rng').
     ebind (predicted_token outputs) (\<lambda>token.
     ebind (decode token) (\<lambda>c.
     Inr \<lparr>g_idx = [token], g_output = g_output s @ [c], g_zero_hidden = False,
          g_net = net', g_rng = rng'\<rparr>))))"
  by (simp add: gen_step_def net_input_def decode_def ebind_def split: sum.splits)

lemma decode_valid:
  assumes "0 \<le> tok" and "tok < input_size"
  shows "decode tok = Inr (chars ! nat tok)"
proof -
  have "int_to_char tok = Some (chars ! nat tok)"
    using assms by (simp add: int_to_char_iff input_size_def length_chars)
  then show ?thesis by (simp add: decode_def dict_index_def)
qed

lemma decode_Inr: "decode tok = Inr c \<Longrightarrow> 0 \<le> tok \<and> tok < input_size \<and> c = chars ! nat tok"
  by (auto simp: decode_def dict_index_def int_to_char_iff input_size_def length_chars
      split: option.splits)

lemma argmax_acc_first_max:
  assumes "i = int (length ys)" and "0 \<le> b" and "b < i" and "ys ! nat b = v"
    and "\<forall>y \<in> set ys. y \<le> v" and "\<forall>j < nat b. ys ! j < v"
  shows "0 \<le> argmax_acc b v i xs \<and> argmax_acc b v i xs < i + int (length xs)
    \<and> (\<forall>y \<in> set (ys @ xs). y \<le> (ys @ xs) ! nat (argmax_acc b v i xs))
    \<and> (\<forall>j < nat (argmax_acc b v i xs). (ys @ xs) ! j < (ys @ xs) ! nat (argmax_acc b v i xs))"
  using assms
proof (induction xs arbitrary: ys b v i)
  case Nil
  then show ?case by simp
next
  case (Cons x xs)
  have len: "i + 1 = int (length (ys @ [x]))" using Cons.prems(1) by simp
  have app: "(ys @ [x]) @ xs = ys @ x # xs" by simp
  have ni: "nat i = length ys" using Cons.prems(1) by simp
  show ?case
  proof (cases "v < x")
    case True
    have "\<forall>y \<in> set (ys @ [x]). y \<le> x"
      using Cons.prems(5) True by auto
    moreover have "\<forall>j < nat i. (ys @ [x]) ! j < x"
    proof (intro allI impI)
      fix j
      assume "j < nat i"
      then have j: "j < length ys" using ni by simp
      then have "ys ! j \<le> v" using Cons.prems(5) by simp
      with True j show "(ys @ [x]) ! j < x" by (simp add: nth_append)
    qed
    moreover have "(ys @ [x]) ! nat i = x" using ni by simp
    moreover have "0 \<le> i" "i < i + 1" using Cons.prems(1) by simp_all
    ultimately have "0 \<le> argmax_acc i x (i + 1) xs
        \<and> argmax_acc i x (i + 1) xs < i + 1 + int (length xs)
        \<and> (\<forall>y \<in> set ((ys @ [x]) @ xs). y \<le> ((ys @ [x]) @ xs) ! nat (argmax_acc i x (i + 1) xs))
        \<and> (\<forall>j < nat (argmax_acc i x (i + 1) xs).
              ((ys @ [x]) @ xs) ! j < ((ys @ [x]) @ xs) ! nat (argmax_acc i x (i + 1) xs))"
      using len by (intro Cons.IH)
    with True show ?thesis unfolding app by simp
  next
    case False
    have nb: "nat b < length ys" using Cons.prems(2,3) ni by simp
    have "\<forall>y \<in> set (ys @ [x]). y \<le> v"
      using Cons.prems(5) False by auto
    moreover have "\<forall>j < nat b. (ys @ [x]) ! j < v"
      using Cons.prems(6) nb by (simp add: nth_append)
    moreover have "(ys @ [x]) ! nat b = v"
      using Cons.prems(4) nb by (simp add: nth_append)
    moreover have "b < i + 1" using Cons.prems(3) by simp
    ultimately have "0 \<le> argmax_acc b v (i + 1) xs
        \<and> argmax_acc b v (i + 1) xs < i + 1 + int (length xs)
        \<and> (\<forall>y \<in> set ((ys @ [x]) @ xs). y \<le> ((ys @ [x]) @ xs) ! nat (argmax_acc b v (i + 1) xs))
        \<and> (\<forall>j < nat (argmax_acc b v (i + 1) xs).
              ((ys @ [x]) @ xs) ! j < ((ys @ [x]) @ xs) ! nat (argmax_acc b v (i + 1) xs))"
      using len Cons.prems(2) by (intro Cons.IH)
    with False show ?thesis unfolding app by simp
  qed
qed

lemma argmax_row_first_max:
  assumes "argmax_row xs = Inr r"
  shows "0 \<le> r \<and> nat r < length xs \<and> xs ! nat r = Max (set xs)
    \<and> (\<forall>j < nat r. xs ! j < xs ! nat r)"
proof (cases xs)
  case Nil
  with assms show ?thesis by (simp add: argmax_row_def)
next
  case (Cons x xs')
  with assms have r: "r = argmax_acc 0 x 1 xs'" by (simp add: argmax_row_def)
  have "0 \<le> argmax_acc 0 x 1 xs' \<and> argmax_acc 0 x 1 xs' < 1 + int (length xs')
    \<and> (\<forall>y \<in> set ([x] @ xs'). y \<le> ([x] @ xs') ! nat (argmax_acc 0 x 1 xs'))
    \<and> (\<forall>j < nat (argmax_acc 0 x 1 xs').
          ([x] @ xs') ! j < ([x] @ xs') ! nat (argmax_acc 0 x 1 xs'))"
    by (rule argmax_acc_first_max) simp_all
  then have p: "0 \<le> r" "nat r < length xs" "\<forall>y \<in> set xs. y \<le> xs ! nat r"
    "\<forall>j < nat r. xs ! j < xs ! nat r"
    unfolding r Cons by auto
  have "Max (set xs) = xs ! nat r"
  proof (rule Max_eqI)
    show "finite (set xs)" by simp
    show "y \<le> xs ! nat r" if "y \<in> set xs" for y using that p(3) by simp
    show "xs ! nat r \<in> set xs" using p(2) by simp
  qed
  with p show ?thesis by simp
qed

lemma sequence_err_InrD:
  assumes "sequence_err (map f xs) = Inr ys"
  shows "length ys = length xs \<and> (\<forall>i < length xs. f (xs ! i) = Inr (ys ! i))"
  using assms
proof (induction xs arbitrary: ys)
  case Nil
  then show ?case by simp
next
  case (Cons x xs)
  from Cons.prems obtain y ys' where y: "f x = Inr y" and s: "sequence_err (map f xs) = Inr ys'"
    and ys: "ys = y # ys'"
    by (auto split: sum.splits)
  from Cons.IH [OF s] have "length ys' = length xs"
    and "\<forall>i < length xs. f (xs ! i) = Inr (ys' ! i)" by simp_all
  with y ys show ?case by (auto simp: nth_Cons split: nat.splits)
qed

lemma py_index_first: "py_index xs 0 = Inr x \<Longrightarrow> xs \<noteq> [] \<and> x = hd xs"
  by (cases xs) (auto simp: py_index_def split: if_splits)

lemma py_index_last: "py_index xs (- 1) = Inr x \<Longrightarrow> xs \<noteq> [] \<and> x = last xs"
proof (cases xs rule: rev_cases)
  case Nil
  then show "py_index xs (- 1) = Inr x \<Longrightarrow> xs \<noteq> [] \<and> x = last xs"
    by (simp add: py_index_def)
next
  case (snoc ys y)
  then show "py_index xs (- 1) = Inr x \<Longrightarrow> xs \<noteq> [] \<and> x = last xs"
    by (auto simp: py_index_def nth_append split: if_splits)
qed

lemma predicted_token_last:
  assumes "predicted_token outputs = Inr tok"
  shows "outputs \<noteq> [] \<and> hd outputs \<noteq> [] \<and> argmax_row (last (hd outputs)) = Inr tok"
proof -
  from assms obtain predicted row where
    m: "max_dim2 outputs = Inr predicted" and r: "py_index predicted 0 = Inr row"
    and t: "py_index row (- 1) = Inr tok"
    by (auto simp: predicted_token_def ebind_def split: sum.splits)
  from py_index_first [OF r] have p: "predicted \<noteq> []" "row = hd predicted" by simp_all
  from py_index_last [OF t] have w: "row \<noteq> []" "tok = last row" by simp_all
  from sequence_err_InrD [OF m [unfolded max_dim2_def]]
  have lp: "length predicted = length outputs"
    and ep: "\<forall>i < length outputs. sequence_err (map argmax_row (outputs ! i)) = Inr (predicted ! i)"
    by simp_all
  from p lp have o: "outputs \<noteq> []" by auto
  with ep have "sequence_err (map argmax_row (outputs ! 0)) = Inr (predicted ! 0)" by simp
  with o p have h: "sequence_err (map argmax_row (hd outputs)) = Inr row"
    by (simp add: hd_conv_nth)
  from sequence_err_InrD [OF h]
  have lr: "length row = length (hd outputs)"
    and er: "\<forall>i < length (hd outputs). argmax_row (hd outputs ! i) = Inr (row ! i)"
    by simp_all
  from w lr have ho: "hd outputs \<noteq> []" by auto
  then have "argmax_row (hd outputs ! (length (hd outputs) - 1))
      = Inr (row ! (length (hd outputs) - 1))"
    using er by simp
  with ho w lr have "argmax_row (last (hd outputs)) = Inr tok"
    by (simp add: last_conv_nth)
  with o ho show ?thesis by simp
qed

lemma gen_step_output:
  assumes "gen_step ops s = Inr s'"
  shows "\<exists>c. g_output s' = g_output s @ [c]"
  using assms
  by (auto simp: gen_step_unfold ebind_def split: sum.splits prod.splits)

lemma gen_loop_add:
  "gen_loop ops (i + m) s = ebind (gen_loop ops i s) (gen_loop ops m)"
proof (induction i arbitrary: s)
  case 0
  show ?case by (simp add: ebind_def)
next
  case (Suc i)
  show ?case
    by (cases "gen_step ops s") (simp_all add: ebind_def Suc.IH)
qed

lemma gen_loop_output:
  assumes "gen_loop ops n s = Inr s'"
  shows "\<exists>cs. g_output s' = g_output s @ cs \<and> length cs = n"
  using assms
proof (induction n arbitrary: s)
  case 0
  then show ?case by simp
next
  case (Suc n)
  from Suc.prems obtain s1 where s1: "gen_step ops s = Inr s1" and l: "gen_loop ops n s1 = Inr s'"
    by (auto simp: ebind_def split: sum.splits)
  from gen_step_output [OF s1] obtain c where c: "g_output s1 = g_output s @ [c]" ..
  from Suc.IH [OF l] obtain cs where "g_output s' = g_output s1 @ cs" "length cs = n"
    by blast
  with c have "g_output s' = g_output s @ (c # cs) \<and> length (c # cs) = Suc n" by simp
  then show ?case by blast
qed

lemma loop_tokens_input:
  assumes "loop_tokens toks"
  shows "net_input toks
     = Inr [map (\<lambda>k. map (\<lambda>j. if int j = k then 1 else 0) [0..<28]) toks]"
  using assms by (intro net_input_valid) (simp add: loop_tokens_def list_all_iff)

lemma py_index_minus_one: "xs \<noteq> [] \<Longrightarrow> py_index xs (- 1) = Inr (last xs)"
  by (cases xs rule: rev_cases) (simp_all add: py_index_def nth_append)

lemma predicted_token_rows:
  assumes "rows \<noteq> []"
    and "map (map length) outputs = map (map (\<lambda>step. nat input_size)) [rows]"
  shows "\<exists>tok. predicted_token outputs = Inr tok \<and> 0 \<le> tok \<and> tok < input_size"
proof -
  let ?g = "\<lambda>r. argmax_acc 0 (hd r) 1 (tl r)"
  have sz: "nat input_size = 28" "input_size = 28"
    by (simp_all add: input_size_def length_chars)
  from assms(2) obtain rs where o: "outputs = [rs]"
    and rs: "map length rs = map (\<lambda>step. 28) rows"
    by (cases outputs) (auto simp: sz)
  from rs have "length (map length rs) = length (map (\<lambda>step. 28 :: nat) rows)"
    by (rule arg_cong)
  then have len: "length rs = length rows" by simp
  with assms(1) have ne: "rs \<noteq> []" by auto
  have wide: "length r = 28" if "r \<in> set rs" for r
  proof -
    from that have "length r \<in> set (map length rs)" by simp
    then show ?thesis unfolding rs by auto
  qed
  have am: "argmax_row r = Inr (?g r)" if "r \<in> set rs" for r
    using wide [OF that] by (cases r) (simp_all add: argmax_row_def)
  then have "sequence_err (map argmax_row rs) = Inr (map ?g rs)"
    by (rule sequence_err_Inr)
  then have m: "max_dim2 outputs = Inr [map ?g rs]"
    by (simp add: max_dim2_def o)
  have l: "py_index (map ?g rs) (- 1) = Inr (last (map ?g rs))"
    using ne by (intro py_index_minus_one) simp
  have f0: "py_index [map ?g rs] 0 = Inr (map ?g rs)"
    by (simp add: py_index_def)
  have "predicted_token outputs = Inr (last (map ?g rs))"
    by (simp only: predicted_token_def ebind_def m f0 l sum.case)
  then have p: "predicted_token outputs = Inr (?g (last rs))"
    using ne by (simp add: last_map)
  have "last rs \<in> set rs" using ne by simp
  then have "argmax_row (last rs) = Inr (?g (last rs))" and "length (last rs) = 28"
    using am wide by blast+
  with argmax_row_first_max [of "last rs" "?g (last rs)"]
  have "0 \<le> ?g (last rs) \<and> ?g (last rs) < input_size"
    by (simp add: sz) linarith
  with p show ?thesis by blast
qed

lemma gen_step_completes:
  assumes nc: "net_completes ops w"
    and lt: "loop_tokens (g_idx s)"
    and wt: "weights (g_net s) = w"
    and tr: "training (g_net s) = False"
    and hid: "g_zero_hidden s \<or> (\<exists>h. hiddens (g_net s) = Some h \<and> reachable ops w h)"
  shows "\<exists>x outputs net' rng' tok h'.
      net_input (g_idx s) = Inr x
      \<and> forward ops (g_net s) (g_rng s) x (g_zero_hidden s) = Inr (outputs, net', rng')
      \<and> predicted_token outputs = Inr tok \<and> 0 \<le> tok \<and> tok < input_size
      \<and> gen_step ops s = Inr \<lparr>g_idx = [tok], g_output = g_output s @ [chars ! nat tok],
                               g_zero_hidden = False, g_net = net', g_rng = rng'\<rparr>
      \<and> weights net' = w \<and> training net' = False
      \<and> hiddens net' = Some h' \<and> reachable ops w h'
      \<and> (\<forall>k. (\<forall>toks x h y h'. loop_tokens toks \<and> net_input toks = Inr x
                   \<and> reachable ops w h \<and> lstm_fn ops w x h = Inr (y, h')
                   \<longrightarrow> predicted_token (linear_fn ops w y) = Inr k) \<longrightarrow> tok = k)"
proof -
  let ?steps = "map (\<lambda>k. map (\<lambda>j. if int j = k then 1 else 0 :: real) [0..<28]) (g_idx s)"
  let ?x = "[?steps]"
  have x: "net_input (g_idx s) = Inr ?x"
    using lt by (rule loop_tokens_input)
  have st: "?steps \<noteq> []" using lt by (simp add: loop_tokens_def)
  obtain h0 where h0: "(if g_zero_hidden s then Inr (zero_state ?x) else get_hiddens (g_net s))
      = Inr h0" and r0: "reachable ops w h0"
  proof (cases "g_zero_hidden s")
    case True
    moreover have "reachable ops w (zero_state ?x)"
      using lt x by (rule reachable.zero)
    ultimately show ?thesis using that by simp
  next
    case False
    with hid obtain h where "hiddens (g_net s) = Some h" "reachable ops w h" by blast
    with False show ?thesis using that by (simp add: get_hiddens_def)
  qed
  from nc lt x r0 obtain y h' where l: "lstm_fn ops w ?x h0 = Inr (y, h')"
    and sh: "map (map length) (linear_fn ops w y) = map (map (\<lambda>step. nat input_size)) ?x"
    unfolding net_completes_def by blast
  from predicted_token_rows [OF st sh] obtain tok where
    p: "predicted_token (linear_fn ops w y) = Inr tok" and t: "0 \<le> tok" "tok < input_size"
    by blast
  have r': "reachable ops w h'"
    using r0 lt x l by (rule reachable.step)
  let ?net' = "(g_net s)\<lparr>hiddens := Some h'\<rparr>"
  have f: "forward ops (g_net s) (g_rng s) ?x (g_zero_hidden s)
      = Inr (linear_fn ops w y, ?net', g_rng s)"
    using tr by (simp only: forward_eval h0 wt l sum.case prod.case)
  have d: "decode tok = Inr (chars ! nat tok)" using t by (rule decode_valid)
  have g: "gen_step ops s = Inr \<lparr>g_idx = [tok], g_output = g_output s @ [chars ! nat tok],
                               g_zero_hidden = False, g_net = ?net', g_rng = g_rng s\<rparr>"
    by (simp add: gen_step_unfold x f p d ebind_def)
  have k: "tok = k"
    if "\<forall>toks x h y h'. loop_tokens toks \<and> net_input toks = Inr x
          \<and> reachable ops w h \<and> lstm_fn ops w x h = Inr (y, h')
          \<longrightarrow> predicted_token (linear_fn ops w y) = Inr k" for k
  proof -
    from that lt x r0 l have "predicted_token (linear_fn ops w y) = Inr k" by blast
    with p show ?thesis by simp
  qed
  have n: "weights ?net' = w" "training ?net' = False" "hiddens ?net' = Some h'"
    using wt tr by simp_all
  from x f p t g n r' k show ?thesis by blast
qed

lemma gen_loop_completes:
  assumes nc: "net_completes ops w"
    and lt: "loop_tokens (g_idx s)"
    and wt: "weights (g_net s) = w"
    and tr: "training (g_net s) = False"
    and hid: "g_zero_hidden s \<or> (\<exists>h. hiddens (g_net s) = Some h \<and> reachable ops w h)"
  shows "\<exists>s'. gen_loop ops n s = Inr s' \<and> loop_tokens (g_idx s')
      \<and> weights (g_net s') = w \<and> training (g_net s') = False
      \<and> (g_zero_hidden s' \<or> (\<exists>h. hiddens (g_net s') = Some h \<and> reachable ops w h))"
  using lt wt tr hid
proof (induction n arbitrary: s)
  case 0
  then show ?case by simp
next
  case (Suc n)
  from gen_step_completes [OF nc Suc.prems]
  obtain net' rng' tok h' where t: "0 \<le> tok" "tok < input_size"
    and g: "gen_step ops s = Inr \<lparr>g_idx = [tok], g_output = g_output s @ [chars ! nat tok],
                               g_zero_hidden = False, g_net = net', g_rng = rng'\<rparr>"
    and n: "weights net' = w" "training net' = False"
    and h: "hiddens net' = Some h'" "reachable ops w h'"
    by blast
  let ?s1 = "\<lparr>g_idx = [tok], g_output = g_output s @ [chars ! nat tok],
              g_zero_hidden = False, g_net = net', g_rng = rng'\<rparr>"
  have "\<exists>s'. gen_loop ops n ?s1 = Inr s' \<and> loop_tokens (g_idx s')
      \<and> weights (g_net s') = w \<and> training (g_net s') = False
      \<and> (g_zero_hidden s' \<or> (\<exists>h. hiddens (g_net s') = Some h \<and> reachable ops w h))"
    using t n h by (intro Suc.IH) (simp_all add: loop_tokens_def)
  with g show ?case by (simp add: ebind_def)
qed

text \<open>
  Claim C8, as the code has it. The first pass of the loop reads the last time step of
  the logits for the primer, so the primer must keep at least one character after
  tokenization (or the length must be zero or negative, and the loop does not run).
  Then, the network completing its calls as the layers of \<^verbatim>\<open>MyRNN\<close> do, the cell returns
  the primer followed by exactly \<open>gen_length\<close> characters; character \<open>i\<close> is the decoding
  of the position of the largest logit at the last time step of the call in pass \<open>i\<close>. If
  that position is \<open>k\<close> in every call of the loop, the generated characters are
  \<open>gen_length\<close> copies of character \<open>k\<close>: primer \<open>a\<close>, length 3 and \<open>k = 0\<close> give \<open>aaaa\<close>.
\<close>

theorem generate_returns:
  assumes "net_completes ops w" and "tokenize lower pretext \<noteq> [] \<or> gen_length \<le> 0"
  shows "\<exists>cs. generate lower ops w net rng pretext gen_length = Inr (pretext @ cs)
    \<and> length cs = nat gen_length
    \<and> (\<forall>i < nat gen_length. \<exists>s x outputs net' rng' tok.
          gen_loop ops i (gen_init lower w net rng pretext) = Inr s
          \<and> g_output s = pretext @ take i cs
          \<and> net_input (g_idx s) = Inr x
          \<and> forward ops (g_net s) (g_rng s) x (g_zero_hidden s) = Inr (outputs, net', rng')
          \<and> outputs \<noteq> [] \<and> hd outputs \<noteq> []
          \<and> argmax_row (last (hd outputs)) = Inr tok
          \<and> last (hd outputs) ! nat tok = Max (set (last (hd outputs)))
          \<and> decode tok = Inr (cs ! i))
    \<and> (\<forall>k. (\<forall>toks x h y h'. loop_tokens toks \<and> net_input toks = Inr x
                \<and> reachable ops w h \<and> lstm_fn ops w x h = Inr (y, h')
                \<longrightarrow> predicted_token (linear_fn ops w y) = Inr k)
          \<longrightarrow> cs = replicate (nat gen_length) (chars ! nat k))"
proof (cases "nat gen_length = 0")
  case True
  then have "generate lower ops w net rng pretext gen_length = Inr (pretext @ [])"
    by (simp add: generate_def ebind_def gen_init_def)
  with True show ?thesis by auto
next
  case False
  let ?n = "nat gen_length"
  let ?s0 = "gen_init lower w net rng pretext"
  from False assms(2) have ne: "g_idx ?s0 \<noteq> []" by (auto simp: gen_init_def)
  have valid: "\<forall>k \<in> set (g_idx ?s0). 0 \<le> k \<and> k < input_size"
  proof
    fix k
    assume "k \<in> set (g_idx ?s0)"
    then have k: "k \<in> set (tokenize lower pretext)" by (simp add: gen_init_def)
    have "list_all2 (\<lambda>i c. 0 \<le> i \<and> i < 28 \<and> chars ! nat i = c)
        (tokenize lower pretext) (filter (\<lambda>c. c \<in> set chars) (lower pretext))"
      using tokens_indices [of "lower pretext"] by (simp add: tokenize_def)
    with k show "0 \<le> k \<and> k < input_size"
      by (auto simp: list_all2_conv_all_nth in_set_conv_nth input_size_def length_chars)
  qed
  with ne have lt: "loop_tokens (g_idx ?s0)"
    by (simp add: loop_tokens_def list_all_iff)
  have wt: "weights (g_net ?s0) = w" and tr: "training (g_net ?s0) = False"
    and hid: "g_zero_hidden ?s0 \<or> (\<exists>h. hiddens (g_net ?s0) = Some h \<and> reachable ops w h)"
    and out0: "g_output ?s0 = pretext"
    by (simp_all add: gen_init_def)
  note inv = assms(1) lt wt tr hid
  from gen_loop_completes [OF inv, of ?n] obtain s' where fin: "gen_loop ops ?n ?s0 = Inr s'"
    by blast
  from gen_loop_output [OF fin] out0 obtain cs where
    cs: "g_output s' = pretext @ cs" "length cs = ?n" by auto
  have gen: "generate lower ops w net rng pretext gen_length = Inr (pretext @ cs)"
    by (simp add: generate_def fin cs ebind_def)
  have pass: "\<exists>s x outputs net' rng' tok.
          gen_loop ops i ?s0 = Inr s
          \<and> g_output s = pretext @ take i cs
          \<and> net_input (g_idx s) = Inr x
          \<and> forward ops (g_net s) (g_rng s) x (g_zero_hidden s) = Inr (outputs, net', rng')
          \<and> predicted_token outputs = Inr tok
          \<and> decode tok = Inr (cs ! i)
          \<and> (\<forall>k. (\<forall>toks x h y h'. loop_tokens toks \<and> net_input toks = Inr x
                     \<and> reachable ops w h \<and> lstm_fn ops w x h = Inr (y, h')
                     \<longrightarrow> predicted_token (linear_fn ops w y) = Inr k) \<longrightarrow> tok = k)"
    if i: "i < ?n" for i
  proof -
    from gen_loop_completes [OF inv, of i] obtain s where
      s: "gen_loop ops i ?s0 = Inr s" and lt': "loop_tokens (g_idx s)"
      and wt': "weights (g_net s) = w" and tr': "training (g_net s) = False"
      and hid': "g_zero_hidden s \<or> (\<exists>h. hiddens (g_net s) = Some h \<and> reachable ops w h)"
      by blast
    from gen_step_completes [OF assms(1) lt' wt' tr' hid']
    obtain x outputs net' rng' tok where
      x: "net_input (g_idx s) = Inr x"
      and f: "forward ops (g_net s) (g_rng s) x (g_zero_hidden s) = Inr (outputs, net', rng')"
      and p: "predicted_token outputs = Inr tok" and t: "0 \<le> tok" "tok < input_size"
      and g: "gen_step ops s = Inr \<lparr>g_idx = [tok], g_output = g_output s @ [chars ! nat tok],
                               g_zero_hidden = False, g_net = net', g_rng = rng'\<rparr>"
      and k: "\<forall>k. (\<forall>toks x h y h'. loop_tokens toks \<and> net_input toks = Inr x
                     \<and> reachable ops w h \<and> lstm_fn ops w x h = Inr (y, h')
                     \<longrightarrow> predicted_token (linear_fn ops w y) = Inr k) \<longrightarrow> tok = k"
      by blast
    let ?s1 = "\<lparr>g_idx = [tok], g_output = g_output s @ [chars ! nat tok],
                g_zero_hidden = False, g_net = net', g_rng = rng'\<rparr>"
    from gen_loop_output [OF s] out0 obtain as where
      as: "g_output s = pretext @ as" "length as = i" by auto
    have split: "?n = i + Suc (?n - Suc i)" using i by simp
    have "gen_loop ops ?n ?s0 = ebind (gen_loop ops i ?s0) (gen_loop ops (Suc (?n - Suc i)))"
      by (subst split) (rule gen_loop_add)
    with fin s g have "gen_loop ops (?n - Suc i) ?s1 = Inr s'"
      by (simp add: ebind_def)
    from gen_loop_output [OF this] obtain ds where "g_output s' = g_output ?s1 @ ds"
      by blast
    with as cs have eq: "cs = as @ chars ! nat tok # ds" by simp
    have "take i cs = as" and "cs ! i = chars ! nat tok"
      using as(2) by (auto simp: eq nth_append)
    moreover have "decode tok = Inr (chars ! nat tok)" using t by (rule decode_valid)
    ultimately show ?thesis using s as x f p k by auto
  qed
  have passes: "\<forall>i < ?n. \<exists>s x outputs net' rng' tok.
          gen_loop ops i ?s0 = Inr s
          \<and> g_output s = pretext @ take i cs
          \<and> net_input (g_idx s) = Inr x
          \<and> forward ops (g_net s) (g_rng s) x (g_zero_hidden s) = Inr (outputs, net', rng')
          \<and> outputs \<noteq> [] \<and> hd outputs \<noteq> []
          \<and> argmax_row (last (hd outputs)) = Inr tok
          \<and> last (hd outputs) ! nat tok = Max (set (last (hd outputs)))
          \<and> decode tok = Inr (cs ! i)"
  proof (intro allI impI)
    fix i
    assume "i < ?n"
    from pass [OF this] obtain s x outputs net' rng' tok where
      a: "gen_loop ops i ?s0 = Inr s" "g_output s = pretext @ take i cs"
        "net_input (g_idx s) = Inr x"
        "forward ops (g_net s) (g_rng s) x (g_zero_hidden s) = Inr (outputs, net', rng')"
        "decode tok = Inr (cs ! i)"
      and p: "predicted_token outputs = Inr tok"
      by blast
    from predicted_token_last [OF p] have b: "outputs \<noteq> []" "hd outputs \<noteq> []"
      and am: "argmax_row (last (hd outputs)) = Inr tok" by simp_all
    from argmax_row_first_max [OF am]
    have "last (hd outputs) ! nat tok = Max (set (last (hd outputs)))" by simp
    with a b am show "\<exists>s x outputs net' rng' tok.
          gen_loop ops i ?s0 = Inr s
          \<and> g_output s = pretext @ take i cs
          \<and> net_input (g_idx s) = Inr x
          \<and> forward ops (g_net s) (g_rng s) x (g_zero_hidden s) = Inr (outputs, net', rng')
          \<and> outputs \<noteq> [] \<and> hd outputs \<noteq> []
          \<and> argmax_row (last (hd outputs)) = Inr tok
          \<and> last (hd outputs) ! nat tok = Max (set (last (hd outputs)))
          \<and> decode tok = Inr (cs ! i)"
      by blast
  qed
  have always: "cs = replicate ?n (chars ! nat k)"
    if h: "\<forall>toks x h y h'. loop_tokens toks \<and> net_input toks = Inr x
                \<and> reachable ops w h \<and> lstm_fn ops w x h = Inr (y, h')
                \<longrightarrow> predicted_token (linear_fn ops w y) = Inr k" for k
  proof (rule nth_equalityI)
    show "length cs = length (replicate ?n (chars ! nat k))" using cs(2) by simp
    fix i
    assume "i < length cs"
    then have i: "i < ?n" using cs(2) by simp
    from pass [OF i] h obtain tok where "decode tok = Inr (cs ! i)" and "tok = k"
      by blast
    then have "cs ! i = chars ! nat k" using decode_Inr [of k "cs ! i"] by simp
    with i show "cs ! i = replicate ?n (chars ! nat k) ! i" by simp
  qed
  from gen cs(2) passes always show ?thesis by blast
qed

lemma strict_ops_lstm:
  "lstm_fn (strict_ops k) w x (h, c) =
     (if x \<noteq> [] \<and> hd x \<noteq> [] \<and> shape3 (length x) (length (hd x)) 28 x
         \<and> shape3 1 (length x) 128 h \<and> shape3 1 (length x) 128 c
      then Inr (map (map (\<lambda>step. replicate 128 0)) x,
                (h, map (map (map (\<lambda>v. v + real (length (hd x))))) c))
      else Inl RuntimeError)"
  by (simp add: strict_ops_def)

lemma shape3_map: "shape3 a b c (map (map (map f)) t) = shape3 a b c t"
  by (simp add: shape3_def list_all_iff)

lemma strict_ops_reachable:
  assumes "reachable (strict_ops k) () h"
  shows "shape3 1 1 128 (fst h) \<and> shape3 1 1 128 (snd h)"
  using assms
proof (induction rule: reachable.induct)
  case (zero toks x)
  from loop_tokens_input [OF zero(1)] zero(2) have "length x = 1" by auto
  then show ?case by (simp add: zero_state_def Let_def shape3_def)
next
  case (step h toks x y h')
  obtain a b where h: "h = (a, b)" by (cases h)
  from loop_tokens_input [OF step(2)] step(3) have "length x = 1" by auto
  with step(4) step.IH show ?case
    unfolding h strict_ops_lstm by (auto simp: shape3_map split: if_splits)
qed

lemma strict_ops_call:
  assumes "loop_tokens toks" and "net_input toks = Inr x" and "reachable (strict_ops k) () h"
  shows "\<exists>h'. lstm_fn (strict_ops k) () x h
                 = Inr ([map (\<lambda>step. replicate 128 0) toks], h')"
proof -
  let ?rows = "map (\<lambda>k. map (\<lambda>j. if int j = k then 1 else 0 :: real) [0..<28]) toks"
  obtain a b where h: "h = (a, b)" by (cases h)
  from loop_tokens_input [OF assms(1)] assms(2) have x: "x = [?rows]" by simp
  have ne: "?rows \<noteq> []" using assms(1) by (simp add: loop_tokens_def)
  have sx: "shape3 (length x) (length (hd x)) 28 x"
    by (simp add: x shape3_def list_all_iff)
  from strict_ops_reachable [OF assms(3)]
  have "shape3 1 (length x) 128 a" "shape3 1 (length x) 128 b" by (simp_all add: h x)
  with sx ne show ?thesis
    unfolding h strict_ops_lstm by (simp add: x o_def)
qed

lemma strict_ops_completes: "net_completes (strict_ops k) ()"
  unfolding net_completes_def
proof (intro allI impI)
  fix toks x h
  assume a: "loop_tokens toks \<and> net_input toks = Inr x \<and> reachable (strict_ops k) () h"
  then obtain h' where l: "lstm_fn (strict_ops k) () x h
      = Inr ([map (\<lambda>step. replicate 128 0) toks], h')"
    using strict_ops_call by blast
  from a loop_tokens_input [of toks]
  have x: "x = [map (\<lambda>k. map (\<lambda>j. if int j = k then 1 else 0) [0..<28]) toks]" by simp
  have "map (map length) (linear_fn (strict_ops k) () [map (\<lambda>step. replicate 128 0) toks])
      = map (map (\<lambda>step. nat input_size)) x"
    by (simp add: strict_ops_def x o_def input_size_def length_chars)
  with l show "\<exists>y h'. lstm_fn (strict_ops k) () x h = Inr (y, h')
      \<and> map (map length) (linear_fn (strict_ops k) () y)
          = map (map (\<lambda>step. nat input_size)) x"
    by blast
qed

lemma strict_ops_selects:
  assumes "loop_tokens toks" and "net_input toks = Inr x" and "reachable (strict_ops 0) () h"
    and "lstm_fn (strict_ops 0) () x h = Inr (y, h')"
  shows "predicted_token (linear_fn (strict_ops 0) () y) = Inr 0"
proof -
  let ?r = "map (\<lambda>j. if j = (0::nat) then 1 else 0 :: real) [0..<28]"
  from strict_ops_call [OF assms(1-3)] assms(4)
  have y: "y = [map (\<lambda>step. replicate 128 0) toks]" by auto
  have ne: "toks \<noteq> []" using assms(1) by (simp add: loop_tokens_def)
  have lin: "linear_fn (strict_ops 0) () y = [map (\<lambda>step. ?r) toks]"
    by (simp add: strict_ops_def y o_def)
  have r: "argmax_row ?r = Inr 0" by code_simp
  have "sequence_err (map argmax_row (map (\<lambda>step. ?r) toks))
      = Inr (map (\<lambda>x. 0) (map (\<lambda>step. ?r) toks))"
    by (rule sequence_err_Inr) (auto simp: r)
  then have m: "max_dim2 [map (\<lambda>step. ?r) toks] = Inr [map (\<lambda>step. 0) toks]"
    by (simp add: max_dim2_def o_def)
  have f0: "py_index [map (\<lambda>step. 0 :: int) toks] 0 = Inr (map (\<lambda>step. 0) toks)"
    by (simp add: py_index_def)
  have "py_index (map (\<lambda>step. 0 :: int) toks) (- 1) = Inr (last (map (\<lambda>step. 0) toks))"
    using ne by (intro py_index_minus_one) simp
  then have l: "py_index (map (\<lambda>step. 0 :: int) toks) (- 1) = Inr 0"
    using ne by (simp add: last_map)
  show ?thesis
    by (simp only: lin predicted_token_def ebind_def m f0 l sum.case)
qed

theorem generate_returns_witness:
  "net_completes (strict_ops 0) () \<and> tokenize ascii_lower (str_of ''a'') = [0]
   \<and> generate ascii_lower (strict_ops 0) () (MyRNN_init ()) 5 (str_of ''a'') 3
       = Inr (str_of ''aaaa'')"
proof -
  have nc: "net_completes (strict_ops 0) ()" by (rule strict_ops_completes)
  have tk: "tokenize ascii_lower (str_of ''a'') = [0]" by code_simp
  then have ne: "tokenize ascii_lower (str_of ''a'') \<noteq> [] \<or> (3::int) \<le> 0" by simp
  have al: "\<forall>toks x h y h'. loop_tokens toks \<and> net_input toks = Inr x
      \<and> reachable (strict_ops 0) () h \<and> lstm_fn (strict_ops 0) () x h = Inr (y, h')
      \<longrightarrow> predicted_token (linear_fn (strict_ops 0) () y) = Inr 0"
    using strict_ops_selects by blast
  from generate_returns [OF nc ne, of "MyRNN_init ()" 5] al obtain cs where
    "generate ascii_lower (strict_ops 0) () (MyRNN_init ()) 5 (str_of ''a'') 3
       = Inr (str_of ''a'' @ cs)"
    and "cs = replicate (nat 3) (chars ! nat 0)"
    by blast
  moreover have "replicate (nat 3) (chars ! nat 0) = str_of ''aaa''"
    by (simp add: chars_def str_of_def eval_nat_numeral)
  ultimately have "generate ascii_lower (strict_ops 0) () (MyRNN_init ()) 5 (str_of ''a'') 3
       = Inr (str_of ''aaaa'')"
    by (simp add: str_of_def)
  with nc tk show ?thesis by simp
qed

text \<open>
  When no character of the primer survives tokenization and the loop runs at least
  once, the cell raises, for every network that returns one row of logits per time
  step: either the recurrent layer rejects the empty sequence, as \<^verbatim>\<open>nn.LSTM\<close> does, or
  the logits have no last time step to read.
\<close>

lemma generate_empty_primer_fails:
  assumes "tokenize lower pretext = []" and "0 < gen_length"
    and steps: "\<And>x h y h'. lstm_fn ops w x h = Inr (y, h')
                  \<Longrightarrow> map length (linear_fn ops w y) = map length x"
  shows "\<exists>e. generate lower ops w net rng pretext gen_length = Inl e"
proof -
  let ?s0 = "gen_init lower w net rng pretext"
  obtain m where m: "nat gen_length = Suc m"
    using assms(2) by (cases "nat gen_length") auto
  have x: "net_input (g_idx ?s0) = Inr [[]]"
    using net_input_valid [of "[]"] by (simp add: gen_init_def assms(1))
  have tr: "training (g_net ?s0) = False" and z: "g_zero_hidden ?s0"
    and wt: "weights (g_net ?s0) = w"
    by (simp_all add: gen_init_def)
  have "\<exists>e. gen_step ops ?s0 = Inl e"
  proof (cases "lstm_fn ops w [[]] (zero_state [[]])")
    case (Inl e)
    then have "forward ops (g_net ?s0) (g_rng ?s0) [[]] (g_zero_hidden ?s0) = Inl e"
      using tr z wt by (simp add: forward_eval)
    then show ?thesis by (simp add: gen_step_unfold x ebind_def)
  next
    case (Inr r)
    obtain y h' where r: "r = (y, h')" by (cases r)
    from steps [OF Inr [unfolded r]] have "linear_fn ops w y = [[]]"
      by (cases "linear_fn ops w y") auto
    moreover have "predicted_token [[]] = Inl IndexError"
      by (simp add: predicted_token_def max_dim2_def ebind_def py_index_def)
    moreover have "forward ops (g_net ?s0) (g_rng ?s0) [[]] (g_zero_hidden ?s0)
        = Inr (linear_fn ops w y, (g_net ?s0)\<lparr>hiddens := Some h'\<rparr>, g_rng ?s0)"
      using tr z wt Inr r by (simp add: forward_eval)
    ultimately show ?thesis by (simp add: gen_step_unfold x ebind_def)
  qed
  then show ?thesis by (auto simp: generate_def m ebind_def)
qed

theorem generate_empty_primer_counterexample:
  "net_completes (strict_ops 0) ()
   \<and> tokenize ascii_lower (str_of ''42'') = []
   \<and> generate ascii_lower (strict_ops 0) () (MyRNN_init ()) 5 (str_of ''42'') 1
       = Inl RuntimeError
   \<and> generate ascii_lower (strict_ops 0) () (MyRNN_init ()) 5 (str_of '''') 1
       = Inl RuntimeError"
proof -
  have "tokenize ascii_lower (str_of ''42'') = []
   \<and> generate ascii_lower (strict_ops 0) () (MyRNN_init ()) 5 (str_of ''42'') 1
       = Inl RuntimeError
   \<and> generate ascii_lower (strict_ops 0) () (MyRNN_init ()) 5 (str_of '''') 1
       = Inl RuntimeError"
    by code_simp
  with strict_ops_completes [of 0] show ?thesis by simp
qed

end
